theory Spec2Isabelle
  imports Complex_Main "HOL-Library.Multiset" "HOL-Library.Product_Lexorder" "HOL-Library.AList"
begin

section \<open>Data model\<close>

text \<open>
  JavaScript numbers are modelled as real numbers, and integer-valued counters and levels as
  integers (no rounding, no NaN, no infinities). A property that an object may lack is an
  \<open>option\<close>; \<open>None\<close> is \<open>undefined\<close>. A \<open>Map\<close> whose order is observed is an
  association list in insertion order, any other \<open>Map\<close> a partial function. Exceptions are
  values of type \<open>error\<close> on the left of a sum.
\<close>

datatype error = TypeError

record xy =
  xy_x :: real
  xy_y :: real

text \<open>
  A React Flow node as the parser builds it and as the layout and geometry code reads and
  writes it. \<open>style\<close> is the style object (property name, value) in insertion order.
  The fields \<open>node_x\<close>, \<open>node_y\<close>, \<open>node_vx\<close>, \<open>node_vy\<close> and \<open>node_fixed\<close> are the
  properties \<open>x\<close>, \<open>y\<close>, \<open>vx\<close>, \<open>vy\<close> and \<open>fixed\<close>, which only the force simulation
  writes. Every other property of the object lives in the record's extension part.
\<close>

record node =
  node_id :: string
  position :: "xy option"
  data_label :: "string option"
  style :: "(string \<times> string) list option"
  width :: "real option"
  height :: "real option"
  measured_width :: "real option"
  measured_height :: "real option"
  node_x :: "real option"
  node_y :: "real option"
  node_vx :: "real option"
  node_vy :: "real option"
  node_fixed :: "bool option"

record edge =
  edge_source :: string
  edge_target :: string

text \<open>\<open>a || d\<close> for a number \<open>a\<close> that may be undefined: \<open>d\<close> when \<open>a\<close> is undefined or
  zero.\<close>

definition num_or :: "real option \<Rightarrow> real \<Rightarrow> real" where
  "num_or a d = (case a of None \<Rightarrow> d | Some v \<Rightarrow> if v = 0 then d else v)"

text \<open>\<open>m.get(k) || 0\<close> on a \<open>Map\<close> of integers.\<close>

definition get_or_0 :: "('k \<rightharpoonup> int) \<Rightarrow> 'k \<Rightarrow> int" where
  "get_or_0 m k = (case m k of None \<Rightarrow> 0 | Some l \<Rightarrow> l)"

text \<open>\<open>node.style?.background\<close>.\<close>

definition style_background :: "'a node_scheme \<Rightarrow> string option" where
  "style_background n = (case style n of None \<Rightarrow> None | Some st \<Rightarrow> map_of st ''background'')"

text \<open>The object the parser creates for an identifier it meets for the first time.\<close>

definition new_node :: "string \<Rightarrow> string \<Rightarrow> (string \<times> string) list option \<Rightarrow> node" where
  "new_node i lbl st =
     \<lparr>node_id = i, position = Some \<lparr>xy_x = 0, xy_y = 0\<rparr>, data_label = Some lbl,
      style = st, width = Some 150, height = Some 40,
      measured_width = None, measured_height = None,
      node_x = None, node_y = None, node_vx = None, node_vy = None, node_fixed = None\<rparr>"

text \<open>A parsed node moved to a position and given a size.\<close>

definition rect :: "string \<Rightarrow> real \<Rightarrow> real \<Rightarrow> real \<Rightarrow> real \<Rightarrow> node" where
  "rect i px py w h =
     (new_node i i None)\<lparr>position := Some \<lparr>xy_x = px, xy_y = py\<rparr>, width := Some w, height := Some h\<rparr>"

text \<open>\<open>text.toLowerCase()\<close>, on the letters A to Z.\<close>

definition lower :: "char \<Rightarrow> char" where
  "lower c = (if 65 \<le> (of_char c :: nat) \<and> (of_char c :: nat) \<le> 90
              then char_of ((of_char c :: nat) + 32) else c)"

definition toLowerCase :: "string \<Rightarrow> string" where
  "toLowerCase s = map lower s"

section \<open>Edge geometry (floating edges)\<close>








section \<open>Hierarchical layout: levels\<close>

text \<open>
  \<open>adjacency\<close> (and \<open>children\<close>, which the code fills with the same entries) maps a node id
  to the targets of its outgoing edges, in edge order; \<open>inDegree\<close> counts incoming edges.
  \<open>adjacency.get(edge.source).push(...)\<close> raises a TypeError when the source of an edge is
  not the id of a node.
\<close>

type_synonym graph = "(string \<times> string list) list \<times> (string \<rightharpoonup> int)"

definition add_node :: "'a node_scheme \<Rightarrow> graph \<Rightarrow> graph" where
  "add_node n g =
     (case g of (adjacency, inDegree) \<Rightarrow>
        (AList.update (node_id n) [] adjacency, inDegree(node_id n \<mapsto> 0)))"

definition init_graph :: "'a node_scheme list \<Rightarrow> graph" where
  "init_graph nodes = fold add_node nodes ([], Map.empty)"

fun build_edges :: "'e edge_scheme list \<Rightarrow> graph \<Rightarrow> error + graph" where
  "build_edges [] g = Inr g"
| "build_edges (e # es) (adjacency, inDegree) =
     (case map_of adjacency (edge_source e) of
        None \<Rightarrow> Inl TypeError
      | Some ts \<Rightarrow>
          build_edges es
            (AList.update (edge_source e) (ts @ [edge_target e]) adjacency,
             inDegree(edge_target e \<mapsto> get_or_0 inDegree (edge_target e) + 1)))"

text \<open>
  The roots are the nodes without incoming edge, or the first node when there is none.
  With no node at all the code pushes \<open>nodes[0]\<close>, which is \<open>undefined\<close>, and the
  next statement reads \<open>root.id\<close> of it: a TypeError.
\<close>

definition find_roots :: "'a node_scheme list \<Rightarrow> (string \<rightharpoonup> int) \<Rightarrow> error + 'a node_scheme list" where
  "find_roots nodes inDegree =
     (let roots = filter (\<lambda>n. get_or_0 inDegree (node_id n) = 0) nodes
      in if roots = [] then (case nodes of [] \<Rightarrow> Inl TypeError | n # _ \<Rightarrow> Inr [n])
         else Inr roots)"

text \<open>The state of the traversal: \<open>levels\<close>, \<open>visited\<close> and \<open>queue\<close>.\<close>

type_synonym 'k levels = "('k \<times> int) list"

type_synonym 'k bfs_state = "'k levels \<times> 'k set \<times> 'k list"

text \<open>\<open>levels.get(id) || 0\<close>.\<close>

definition level_of :: "'k levels \<Rightarrow> 'k \<Rightarrow> int" where
  "level_of levels k = (case map_of levels k of None \<Rightarrow> 0 | Some l \<Rightarrow> l)"

definition add_root :: "'k \<Rightarrow> 'k bfs_state \<Rightarrow> 'k bfs_state" where
  "add_root r st =
     (case st of (levels, visited, queue) \<Rightarrow> (AList.update r 0 levels, insert r visited, queue @ [r]))"

definition init_bfs :: "'k list \<Rightarrow> 'k bfs_state" where
  "init_bfs roots = fold add_root roots ([], {}, [])"

text \<open>\<open>adjacency.get(id) || []\<close>.\<close>

definition neighbors :: "('k \<times> 'k list) list \<Rightarrow> 'k \<Rightarrow> 'k list" where
  "neighbors adjacency k = (case map_of adjacency k of None \<Rightarrow> [] | Some ns \<Rightarrow> ns)"

text \<open>The body of \<open>neighbors.forEach\<close>: a neighbour seen for the first time gets the level
  and joins the queue; one seen before has its level raised in place and is not queued again.\<close>

definition visit :: "int \<Rightarrow> 'k \<Rightarrow> 'k bfs_state \<Rightarrow> 'k bfs_state" where
  "visit currentLevel neighborId st =
     (case st of (levels, visited, queue) \<Rightarrow>
        if neighborId \<notin> visited
        then (AList.update neighborId (currentLevel + 1) levels, insert neighborId visited,
              queue @ [neighborId])
        else if currentLevel + 1 > level_of levels neighborId
             then (AList.update neighborId (currentLevel + 1) levels, visited, queue)
             else (levels, visited, queue))"

text \<open>The number of edge targets not visited yet: it bounds the length of the traversal.\<close>

definition unvisited :: "('k \<times> 'k list) list \<Rightarrow> 'k set \<Rightarrow> nat" where
  "unvisited adjacency visited = card (set (concat (map snd adjacency)) - visited)"

lemma fold_visit_visited:
  "fold (visit c) ns (l, v, q) = (l', v', q') \<Longrightarrow>
     v \<subseteq> v' \<and> v' \<subseteq> v \<union> set ns \<and> (v' = v \<longrightarrow> q' = q)"
proof (induction ns arbitrary: l v q)
  case Nil
  then show ?case by simp
next
  case (Cons n ns)
  obtain l1 v1 q1 where s1: "visit c n (l, v, q) = (l1, v1, q1)"
    by (cases "visit c n (l, v, q)") auto
  from Cons.prems s1 have "fold (visit c) ns (l1, v1, q1) = (l', v', q')" by simp
  from Cons.IH [OF this] have ih: "v1 \<subseteq> v'" "v' \<subseteq> v1 \<union> set ns" "v' = v1 \<longrightarrow> q' = q1"
    by auto
  show ?case
  proof (cases "n \<in> v")
    case True
    with s1 have "v1 = v" "q1 = q" by (auto simp: visit_def split: if_splits)
    with ih show ?thesis by auto
  next
    case False
    with s1 have "v1 = insert n v" by (auto simp: visit_def)
    with ih False show ?thesis by auto
  qed
qed

lemma neighbors_in_targets:
  "set (neighbors adjacency k) \<subseteq> set (concat (map snd adjacency))"
proof (cases "map_of adjacency k")
  case None
  then show ?thesis by (simp add: neighbors_def)
next
  case (Some ns)
  then have "(k, ns) \<in> set adjacency" by (rule map_of_SomeD)
  then have "set ns \<subseteq> set (concat (map snd adjacency))" by force
  with Some show ?thesis by (simp add: neighbors_def)
qed

function bfs :: "('k \<times> 'k list) list \<Rightarrow> 'k bfs_state \<Rightarrow> 'k bfs_state" where
  "bfs adjacency (levels, visited, []) = (levels, visited, [])"
| "bfs adjacency (levels, visited, currentId # queue) =
     bfs adjacency
       (fold (visit (level_of levels currentId)) (neighbors adjacency currentId)
          (levels, visited, queue))"
  by pat_completeness auto

lemma bfs_step_decreases:
  assumes "fold (visit c) (neighbors adjacency k) (l, v, q) = (l', v', q')"
  shows "unvisited adjacency v' < unvisited adjacency v
       \<or> (unvisited adjacency v' = unvisited adjacency v
          \<and> length q' < length (k # q))"
proof -
  from fold_visit_visited [OF assms]
  have sub: "v \<subseteq> v'" "v' \<subseteq> v \<union> set (neighbors adjacency k)" "v' = v \<longrightarrow> q' = q" by auto
  show ?thesis
  proof (cases "v' = v")
    case True
    with sub show ?thesis by (simp add: unvisited_def)
  next
    case False
    let ?T = "set (concat (map snd adjacency))"
    from False sub obtain w where w: "w \<in> v'" "w \<notin> v" by auto
    with sub neighbors_in_targets [of adjacency k] have "w \<in> ?T" by auto
    with w have "?T - v' \<subset> ?T - v" using sub by auto
    then have "card (?T - v') < card (?T - v)"
      by (intro psubset_card_mono) auto
    then show ?thesis by (simp add: unvisited_def)
  qed
qed

termination bfs
proof (relation "(\<lambda>(a, st). unvisited a (fst (snd st))) <*mlex*> measure (\<lambda>(a, st). length (snd (snd st)))")
  show "wf ((\<lambda>(a, st). unvisited a (fst (snd st))) <*mlex*> measure (\<lambda>(a, st). length (snd (snd st))))"
    by (simp add: wf_mlex)
next
  fix adjacency :: "('k \<times> 'k list) list" and levels visited currentId queue
  obtain l' v' q' where f: "fold (visit (level_of levels currentId)) (neighbors adjacency currentId)
          (levels, visited, queue) = (l', v', q')"
    by (cases "fold (visit (level_of levels currentId)) (neighbors adjacency currentId)
          (levels, visited, queue)") auto
  from bfs_step_decreases [OF f]
  show "((adjacency, fold (visit (level_of levels currentId)) (neighbors adjacency currentId)
          (levels, visited, queue)), (adjacency, levels, visited, currentId # queue))
        \<in> (\<lambda>(a, st). unvisited a (fst (snd st))) <*mlex*> measure (\<lambda>(a, st). length (snd (snd st)))"
    unfolding f by (auto simp: mlex_prod_def)
qed

function bfs_dequeued :: "('k \<times> 'k list) list \<Rightarrow> 'k bfs_state \<Rightarrow> ('k \<times> int) list" where
  "bfs_dequeued adjacency (levels, visited, []) = []"
| "bfs_dequeued adjacency (levels, visited, currentId # queue) =
     (currentId, level_of levels currentId) #
     bfs_dequeued adjacency
       (fold (visit (level_of levels currentId)) (neighbors adjacency currentId)
          (levels, visited, queue))"
  by pat_completeness auto

termination bfs_dequeued
proof (relation "(\<lambda>(a, st). unvisited a (fst (snd st))) <*mlex*> measure (\<lambda>(a, st). length (snd (snd st)))")
  show "wf ((\<lambda>(a, st). unvisited a (fst (snd st))) <*mlex*> measure (\<lambda>(a, st). length (snd (snd st))))"
    by (simp add: wf_mlex)
next
  fix adjacency :: "('k \<times> 'k list) list" and levels visited currentId queue
  obtain l' v' q' where f: "fold (visit (level_of levels currentId)) (neighbors adjacency currentId)
          (levels, visited, queue) = (l', v', q')"
    by (cases "fold (visit (level_of levels currentId)) (neighbors adjacency currentId)
          (levels, visited, queue)") auto
  from bfs_step_decreases [OF f]
  show "((adjacency, fold (visit (level_of levels currentId)) (neighbors adjacency currentId)
          (levels, visited, queue)), (adjacency, levels, visited, currentId # queue))
        \<in> (\<lambda>(a, st). unvisited a (fst (snd st))) <*mlex*> measure (\<lambda>(a, st). length (snd (snd st)))"
    unfolding f by (auto simp: mlex_prod_def)
qed

text \<open>The levels the hierarchical layout assigns, and the list of the nodes taken from
  the queue, each with the level it had at that moment (\<open>currentLevel\<close>).\<close>

definition hierarchical_levels :: "'a node_scheme list \<Rightarrow> 'e edge_scheme list \<Rightarrow> error + string levels" where
  "hierarchical_levels nodes edges =
     (case build_edges edges (init_graph nodes) of
        Inl e \<Rightarrow> Inl e
      | Inr (adjacency, inDegree) \<Rightarrow>
          (case find_roots nodes inDegree of
             Inl e \<Rightarrow> Inl e
           | Inr roots \<Rightarrow> Inr (fst (bfs adjacency (init_bfs (map node_id roots))))))"

definition hierarchical_dequeued :: "'a node_scheme list \<Rightarrow> 'e edge_scheme list \<Rightarrow> (string \<times> int) list" where
  "hierarchical_dequeued nodes edges =
     (case build_edges edges (init_graph nodes) of
        Inl e \<Rightarrow> []
      | Inr (adjacency, inDegree) \<Rightarrow>
          (case find_roots nodes inDegree of
             Inl e \<Rightarrow> []
           | Inr roots \<Rightarrow> bfs_dequeued adjacency (init_bfs (map node_id roots))))"

text \<open>\<open>levels.get(id) || 0\<close> after the traversal.\<close>

definition hierarchical_level :: "'a node_scheme list \<Rightarrow> 'e edge_scheme list \<Rightarrow> string \<Rightarrow> error + int" where
  "hierarchical_level nodes edges k =
     (case hierarchical_levels nodes edges of Inl e \<Rightarrow> Inl e | Inr levels \<Rightarrow> Inr (level_of levels k))"

text \<open>The invariant of the traversal: only visited nodes have a level, and no level is
  negative.\<close>

definition levels_ok :: "'k bfs_state \<Rightarrow> bool" where
  "levels_ok st = (case st of (levels, visited, queue) \<Rightarrow>
      dom (map_of levels) \<subseteq> visited \<and> (\<forall>k l. map_of levels k = Some l \<longrightarrow> 0 \<le> l))"

section \<open>Spacing\<close>

record spacing =
  nodeSpacing :: real
  levelSpacing :: real
  radiusStep :: real
  minRadius :: real
  gridSpacing :: real
  forceRepulsion :: real

definition DEFAULT_SPACING :: spacing where
  "DEFAULT_SPACING =
     \<lparr>nodeSpacing = 80, levelSpacing = 120, radiusStep = 200, minRadius = 250,
      gridSpacing = 200, forceRepulsion = 3 / 2\<rparr>"

definition calculateMinSpacing :: "'a node_scheme list \<Rightarrow> real \<Rightarrow> real" where
  "calculateMinSpacing nodes baseSpacing =
     (if nodes = [] then baseSpacing
      else let maxWidth = fold max (map (\<lambda>n. num_or (width n) 150) nodes @ [150]) 150
           in max baseSpacing (maxWidth + 30))"

text \<open>The node the circular, force and radial strategies look for:
  \<open>node.style?.background === 'lightskyblue' || node.data?.label === 'Front Shock'\<close>.\<close>

definition is_blue :: "'a node_scheme \<Rightarrow> bool" where
  "is_blue n = (style_background n = Some ''lightskyblue'' \<or> data_label n = Some ''Front Shock'')"

section \<open>Radial layout\<close>

text \<open>
  The centre is the caller's id when it is given and not empty, else the id of the first
  blue node, else the first id with the most connections (the sort is stable), else the id
  of the first node; it is \<open>undefined\<close> when there is no node and no edge. Ids are
  therefore optional in this section, \<open>None\<close> being \<open>undefined\<close>.
\<close>

definition count_edge :: "'e edge_scheme \<Rightarrow> (string \<times> int) list \<Rightarrow> (string \<times> int) list" where
  "count_edge e connections =
     (let c1 = AList.update (edge_source e) (level_of connections (edge_source e) + 1) connections
      in AList.update (edge_target e) (level_of c1 (edge_target e) + 1) c1)"

definition count_connections :: "'a node_scheme list \<Rightarrow> 'e edge_scheme list \<Rightarrow> (string \<times> int) list" where
  "count_connections nodes edges =
     fold count_edge edges (fold (\<lambda>n c. AList.update (node_id n) 0 c) nodes [])"

definition first_id :: "'a node_scheme list \<Rightarrow> string option" where
  "first_id nodes = (case nodes of [] \<Rightarrow> None | n # _ \<Rightarrow> Some (node_id n))"

definition choose_center ::
  "'a node_scheme list \<Rightarrow> 'e edge_scheme list \<Rightarrow> string option \<Rightarrow> string option" where
  "choose_center nodes edges centerNodeId =
     (if centerNodeId \<noteq> None \<and> centerNodeId \<noteq> Some []
      then centerNodeId
      else case find is_blue nodes of
             Some blueNode \<Rightarrow> Some (node_id blueNode)
           | None \<Rightarrow>
               (case sort_key (\<lambda>(k, c). - c) (count_connections nodes edges) of
                  [] \<Rightarrow> first_id nodes
                | (k, c) # _ \<Rightarrow> if k \<noteq> [] then Some k else first_id nodes))"

text \<open>The traversal of the radial layout keeps in the queue, with each id, the level the
  id had when it was queued.\<close>

type_synonym 'k radial_state = "'k levels \<times> 'k set \<times> ('k \<times> int) list"

definition radial_visit :: "int \<Rightarrow> 'k \<Rightarrow> 'k radial_state \<Rightarrow> 'k radial_state" where
  "radial_visit level neighbor st =
     (case st of (levels, visited, queue) \<Rightarrow>
        if neighbor \<notin> visited
        then (AList.update neighbor (level + 1) levels, insert neighbor visited,
              queue @ [(neighbor, level + 1)])
        else if level + 1 > level_of levels neighbor
             then (AList.update neighbor (level + 1) levels, visited, queue)
             else (levels, visited, queue))"

lemma fold_radial_visit_visited:
  "fold (radial_visit c) ns (l, v, q) = (l', v', q') \<Longrightarrow>
     v \<subseteq> v' \<and> v' \<subseteq> v \<union> set ns \<and> (v' = v \<longrightarrow> q' = q)"
proof (induction ns arbitrary: l v q)
  case Nil
  then show ?case by simp
next
  case (Cons n ns)
  obtain l1 v1 q1 where s1: "radial_visit c n (l, v, q) = (l1, v1, q1)"
    by (cases "radial_visit c n (l, v, q)") auto
  from Cons.prems s1 have "fold (radial_visit c) ns (l1, v1, q1) = (l', v', q')" by simp
  from Cons.IH [OF this] have ih: "v1 \<subseteq> v'" "v' \<subseteq> v1 \<union> set ns" "v' = v1 \<longrightarrow> q' = q1"
    by auto
  show ?case
  proof (cases "n \<in> v")
    case True
    with s1 have "v1 = v" "q1 = q" by (auto simp: radial_visit_def split: if_splits)
    with ih show ?thesis by auto
  next
    case False
    with s1 have "v1 = insert n v" by (auto simp: radial_visit_def)
    with ih False show ?thesis by auto
  qed
qed

function radial_bfs :: "('k \<times> 'k list) list \<Rightarrow> 'k radial_state \<Rightarrow> 'k radial_state" where
  "radial_bfs adjacency (levels, visited, []) = (levels, visited, [])"
| "radial_bfs adjacency (levels, visited, (id', level) # queue) =
     radial_bfs adjacency
       (fold (radial_visit level) (neighbors adjacency id') (levels, visited, queue))"
  by pat_completeness auto

lemma radial_step_decreases:
  assumes "fold (radial_visit c) (neighbors adjacency k) (l, v, q) = (l', v', q')"
  shows "unvisited adjacency v' < unvisited adjacency v
       \<or> (unvisited adjacency v' = unvisited adjacency v \<and> length q' < length (kc # q))"
proof -
  from fold_radial_visit_visited [OF assms]
  have sub: "v \<subseteq> v'" "v' \<subseteq> v \<union> set (neighbors adjacency k)" "v' = v \<longrightarrow> q' = q" by auto
  show ?thesis
  proof (cases "v' = v")
    case True
    with sub show ?thesis by (simp add: unvisited_def)
  next
    case False
    let ?T = "set (concat (map snd adjacency))"
    from False sub obtain w where w: "w \<in> v'" "w \<notin> v" by auto
    with sub neighbors_in_targets [of adjacency k] have "w \<in> ?T" by auto
    with w have "?T - v' \<subset> ?T - v" using sub by auto
    then have "card (?T - v') < card (?T - v)"
      by (intro psubset_card_mono) auto
    then show ?thesis by (simp add: unvisited_def)
  qed
qed

termination radial_bfs
proof (relation "(\<lambda>(a, st). unvisited a (fst (snd st))) <*mlex*> measure (\<lambda>(a, st). length (snd (snd st)))")
  show "wf ((\<lambda>(a, st). unvisited a (fst (snd st))) <*mlex*> measure (\<lambda>(a, st). length (snd (snd st))))"
    by (simp add: wf_mlex)
next
  fix adjacency :: "('k \<times> 'k list) list" and levels visited id' level queue
  obtain l' v' q' where f: "fold (radial_visit level) (neighbors adjacency id')
          (levels, visited, queue) = (l', v', q')"
    by (cases "fold (radial_visit level) (neighbors adjacency id') (levels, visited, queue)") auto
  from radial_step_decreases [OF f, of "(id', level)"]
  show "((adjacency, fold (radial_visit level) (neighbors adjacency id') (levels, visited, queue)),
         (adjacency, levels, visited, (id', level) # queue))
        \<in> (\<lambda>(a, st). unvisited a (fst (snd st))) <*mlex*> measure (\<lambda>(a, st). length (snd (snd st)))"
    unfolding f by (auto simp: mlex_prod_def)
qed

text \<open>The forward adjacency of the radial layout has the entries of the hierarchical one;
  here its keys and targets are wrapped, since the centre may be \<open>undefined\<close>.\<close>

definition optional_keys :: "(string \<times> string list) list \<Rightarrow> (string option \<times> string option list) list" where
  "optional_keys adjacency = map (\<lambda>(k, ts). (Some k, map Some ts)) adjacency"

definition radial_levels ::
  "'a node_scheme list \<Rightarrow> 'e edge_scheme list \<Rightarrow> string option \<Rightarrow> error + string option levels" where
  "radial_levels nodes edges centerNodeId =
     (let center = choose_center nodes edges centerNodeId
      in case build_edges edges (init_graph nodes) of
           Inl e \<Rightarrow> Inl e
         | Inr (adjacency, inDegree) \<Rightarrow>
             Inr (fst (radial_bfs (optional_keys adjacency)
                         ([(center, 0)], {center}, [(center, 0)]))))"

text \<open>\<open>levels.get(node.id) || 0\<close>.\<close>

definition radial_level :: "string option levels \<Rightarrow> 'a node_scheme \<Rightarrow> int" where
  "radial_level levels n = level_of levels (Some (node_id n))"

text \<open>\<open>Math.max(...Array.from(levels.values()))\<close>; the levels always hold the centre.\<close>

definition max_level :: "'k levels \<Rightarrow> int" where
  "max_level levels = (case map snd levels of [] \<Rightarrow> 0 | v # vs \<Rightarrow> fold max vs v)"

text \<open>\<open>levelGroups.get(level) || []\<close>: the nodes of a level, in the order of the nodes.\<close>

definition level_group :: "string option levels \<Rightarrow> 'a node_scheme list \<Rightarrow> int \<Rightarrow> 'a node_scheme list" where
  "level_group levels nodes level = filter (\<lambda>n. radial_level levels n = level) nodes"

text \<open>\<open>parents.get(id) || []\<close>: the sources of the edges into the node that come from
  the level just before its own.\<close>

definition parents_of :: "string option levels \<Rightarrow> 'e edge_scheme list \<Rightarrow> string \<Rightarrow> string list" where
  "parents_of levels edges t =
     map edge_source
       (filter (\<lambda>e. edge_target e = t \<and>
                     level_of levels (Some (edge_target e)) = level_of levels (Some (edge_source e)) + 1)
          edges)"

text \<open>\<open>Math.atan2\<close> on real numbers.\<close>

definition atan2 :: "real \<Rightarrow> real \<Rightarrow> real" where
  "atan2 y x =
     (if x > 0 then arctan (y / x)
      else if x < 0 then (if y \<ge> 0 then arctan (y / x) + pi else arctan (y / x) - pi)
      else if y > 0 then pi / 2 else if y < 0 then - pi / 2 else 0)"

text \<open>The circular mean of the angles the parents already have, in [0, 2\<pi>).\<close>

definition barycenter :: "(string option \<rightharpoonup> real) \<Rightarrow> string list \<Rightarrow> real option" where
  "barycenter nodeAngles nodeParents =
     (let parentAngles = List.map_filter (\<lambda>parentId. nodeAngles (Some parentId)) nodeParents
      in if parentAngles = [] then None
         else let sumSin = sum_list (map sin parentAngles);
                  sumCos = sum_list (map cos parentAngles);
                  meanAngle = atan2 (sumSin / real (length parentAngles))
                                    (sumCos / real (length parentAngles))
              in Some (if meanAngle < 0 then meanAngle + 2 * pi else meanAngle))"

text \<open>The comparator of the sort puts the nodes with a barycenter first, by barycenter,
  and leaves the others in their order: a stable sort by this key.\<close>

definition barycenter_key :: "real option \<Rightarrow> nat \<times> real" where
  "barycenter_key b = (case b of Some a \<Rightarrow> (0, a) | None \<Rightarrow> (1, 0))"

definition set_angle ::
  "nat \<Rightarrow> 'a node_scheme \<times> nat \<Rightarrow> (string option \<rightharpoonup> real) \<Rightarrow> (string option \<rightharpoonup> real)" where
  "set_angle n ni nodeAngles =
     nodeAngles(Some (node_id (fst ni)) \<mapsto> 2 * pi * real (snd ni) / real n)"

text \<open>One round of the loop over the levels.\<close>

definition assign_level ::
  "string option levels \<Rightarrow> 'a node_scheme list \<Rightarrow> 'e edge_scheme list \<Rightarrow> int \<Rightarrow>
     (string option \<rightharpoonup> real) \<Rightarrow> (string option \<rightharpoonup> real)" where
  "assign_level levels nodes edges level nodeAngles =
     (let levelNodes = level_group levels nodes level
      in if levelNodes = [] then nodeAngles
         else let sortedNodes =
                    sort_key (\<lambda>n. barycenter_key
                                (barycenter nodeAngles (parents_of levels edges (node_id n))))
                      levelNodes
              in fold (set_angle (length levelNodes))
                   (zip sortedNodes [0..<length sortedNodes]) nodeAngles)"

definition radial_angles ::
  "string option levels \<Rightarrow> 'a node_scheme list \<Rightarrow> 'e edge_scheme list \<Rightarrow> string option \<Rightarrow>
     (string option \<rightharpoonup> real)" where
  "radial_angles levels nodes edges center =
     fold (assign_level levels nodes edges) [1..max_level levels] [center \<mapsto> 0]"

text \<open>The radius the layout computes for a level.\<close>

definition level_radius :: "string option levels \<Rightarrow> 'a node_scheme list \<Rightarrow> spacing \<Rightarrow> int \<Rightarrow> real" where
  "level_radius levels nodes sp level =
     (let minSpacing = calculateMinSpacing nodes (nodeSpacing sp);
          baseRadius = minSpacing;
          nodesInLevel = length (level_group levels nodes level);
          radius = baseRadius + real_of_int level * radiusStep sp
      in if level > 0 \<and> nodesInLevel > 0
         then max radius (real nodesInLevel * minSpacing / (2 * pi))
         else radius)"

definition radial_place ::
  "string option levels \<Rightarrow> (string option \<rightharpoonup> real) \<Rightarrow> 'a node_scheme list \<Rightarrow> spacing \<Rightarrow>
     'a node_scheme \<Rightarrow> 'a node_scheme" where
  "radial_place levels nodeAngles nodes sp n =
     (let level = radial_level levels n;
          radius = level_radius levels nodes sp level;
          angle = num_or (nodeAngles (Some (node_id n))) 0
      in n\<lparr>position := Some \<lparr>xy_x = 400 + (if level = 0 then 0 else radius * cos angle),
                              xy_y = 400 + (if level = 0 then 0 else radius * sin angle)\<rparr>\<rparr>)"

definition radialLayout ::
  "'a node_scheme list \<Rightarrow> 'e edge_scheme list \<Rightarrow> string option \<Rightarrow> spacing \<Rightarrow>
     error + 'a node_scheme list" where
  "radialLayout nodes edges centerNodeId sp =
     (case radial_levels nodes edges centerNodeId of
        Inl e \<Rightarrow> Inl e
      | Inr levels \<Rightarrow>
          let nodeAngles = radial_angles levels nodes edges (choose_center nodes edges centerNodeId)
          in Inr (map (radial_place levels nodeAngles nodes sp) nodes))"

text \<open>The invariant of the radial traversal: no level, assigned or queued, is negative.\<close>

definition radial_ok :: "'k radial_state \<Rightarrow> bool" where
  "radial_ok st = (case st of (levels, visited, queue) \<Rightarrow>
      (\<forall>k l. map_of levels k = Some l \<longrightarrow> 0 \<le> l) \<and> (\<forall>kl \<in> set queue. 0 \<le> snd kl))"


section \<open>Circular and grid layout\<close>

text \<open>\<open>otherNodes.findIndex(n => n.id === node.id)\<close>, for an id that occurs.\<close>

definition find_index_id :: "string \<Rightarrow> 'a node_scheme list \<Rightarrow> nat" where
  "find_index_id i ns = length (takeWhile (\<lambda>n. node_id n \<noteq> i) ns)"

definition circularLayout ::
  "'a node_scheme list \<Rightarrow> real \<Rightarrow> real \<Rightarrow> spacing \<Rightarrow> 'a node_scheme list" where
  "circularLayout nodes centerX centerY sp =
     (let blueNode = find is_blue nodes;
          otherNodes = filter (\<lambda>n. Some (node_id n) \<noteq> map_option node_id blueNode) nodes;
          nodeCount = length otherNodes;
          minSpacing = calculateMinSpacing nodes (nodeSpacing sp);
          radius = max (minRadius sp) (minSpacing * real nodeCount / (2 * pi))
      in map (\<lambda>n.
            if Some (node_id n) = map_option node_id blueNode
            then n\<lparr>position := Some \<lparr>xy_x = centerX, xy_y = centerY\<rparr>\<rparr>
            else let index = find_index_id (node_id n) otherNodes;
                     angle = 2 * pi * real index / real nodeCount
                 in n\<lparr>position := Some \<lparr>xy_x = centerX + radius * cos angle,
                                        xy_y = centerY + radius * sin angle\<rparr>\<rparr>)
           nodes)"

text \<open>\<open>columns || Math.ceil(Math.sqrt(nodeCount))\<close>; the row is the floor of the quotient
  and the column the remainder, which has the sign of the index.\<close>

definition gridLayout :: "'a node_scheme list \<Rightarrow> int option \<Rightarrow> spacing \<Rightarrow> 'a node_scheme list" where
  "gridLayout nodes columns sp =
     (let nodeCount = length nodes;
          cols = (case columns of
                    None \<Rightarrow> \<lceil>sqrt (real nodeCount)\<rceil>
                  | Some c \<Rightarrow> if c = 0 then \<lceil>sqrt (real nodeCount)\<rceil> else c);
          nodeSpacing = calculateMinSpacing nodes (gridSpacing sp)
      in map (\<lambda>(n, index).
            let row = int index div cols;
                col = int index mod \<bar>cols\<bar>
            in n\<lparr>position := Some \<lparr>xy_x = 100 + real_of_int col * nodeSpacing,
                                   xy_y = 100 + real_of_int row * nodeSpacing\<rparr>\<rparr>)
           (zip nodes [0..<length nodes]))"

section \<open>Hierarchical layout: placement\<close>

text \<open>\<open>positions\<close> is a \<open>Map\<close> from id to position whose entries the overlap test
  walks through. The record holds what the two inner functions read from the enclosing
  call: \<open>children\<close>, \<open>levels\<close>, the nodes (for \<open>nodeMap\<close>, which maps an id to the last
  node with that id), \<open>nodeSpacing\<close> and \<open>levelSpacing\<close>.\<close>

type_synonym positions = "(string \<times> xy) list"

record 'a place_ctx =
  ctx_children :: "(string \<times> string list) list"
  ctx_levels :: "string levels"
  ctx_nodes :: "'a node_scheme list"
  ctx_nodeSpacing :: real
  ctx_levelSpacing :: real

text \<open>\<open>nodeMap.get(id)?.width || 150\<close>.\<close>

definition node_width :: "'a node_scheme list \<Rightarrow> string \<Rightarrow> real" where
  "node_width nodes i =
     (case find (\<lambda>n. node_id n = i) (rev nodes) of None \<Rightarrow> 150 | Some n \<Rightarrow> num_or (width n) 150)"

definition root_positions :: "'a node_scheme list \<Rightarrow> real \<Rightarrow> positions" where
  "root_positions roots nodeSpacing' =
     (case roots of
        [r] \<Rightarrow> [(node_id r, \<lparr>xy_x = 400, xy_y = 100\<rparr>)]
      | _ \<Rightarrow> let totalWidth = (real (length roots) - 1) * nodeSpacing';
                 startX = 400 - totalWidth / 2
             in fold (\<lambda>(root, index) ps.
                        AList.update (node_id root)
                          \<lparr>xy_x = startX + real index * nodeSpacing', xy_y = 100\<rparr> ps)
                  (zip roots [0..<length roots]) [])"

definition wouldOverlap :: "'a place_ctx \<Rightarrow> positions \<Rightarrow> real \<Rightarrow> string \<Rightarrow> int \<Rightarrow> bool" where
  "wouldOverlap ctx ps x nodeId level =
     (\<exists>(existingId, existingPos) \<in> set ps.
        existingId \<noteq> nodeId \<and> level_of (ctx_levels ctx) existingId = level \<and>
        \<bar>x - xy_x existingPos\<bar>
          < (node_width (ctx_nodes ctx) nodeId + node_width (ctx_nodes ctx) existingId) / 2 + 10)"

text \<open>The loop that moves a child to the right, at most ten times.\<close>

function shift_right :: "'a place_ctx \<Rightarrow> positions \<Rightarrow> string \<Rightarrow> int \<Rightarrow> nat \<Rightarrow> real \<Rightarrow> real" where
  "shift_right ctx ps childId childLevel attempts childX =
     (if wouldOverlap ctx ps childX childId childLevel \<and> attempts < 10
      then shift_right ctx ps childId childLevel (Suc attempts) (childX + ctx_nodeSpacing ctx / 2)
      else childX)"
  by pat_completeness auto

termination shift_right
  by (relation "measure (\<lambda>(ctx, ps, childId, childLevel, attempts, childX). 10 - attempts)") auto

text \<open>
  \<open>positionChildren\<close> calls itself inside the loop over the children of a node. Here the
  pending work is a stack: \<open>Call\<close> is a call of \<open>positionChildren\<close> that has not started,
  and \<open>Loop\<close> is a started one, with \<open>startX\<close>, the level of the children, and the
  children (with their indices) that the loop has not reached yet.
\<close>

datatype frame = Call string | Loop real int "(string \<times> nat) list"

fun frame_ids :: "frame \<Rightarrow> string set" where
  "frame_ids (Call i) = {}"
| "frame_ids (Loop startX childLevel cs) = fst ` set cs"

fun frame_weight :: "(string \<times> string list) list \<Rightarrow> frame \<Rightarrow> nat" where
  "frame_weight children (Call i) = length (neighbors children i) + 2"
| "frame_weight children (Loop startX childLevel cs) = length cs + 1"

text \<open>The ids that can still be given a position, and the work the stack holds.\<close>

definition unplaced :: "'a place_ctx \<Rightarrow> positions \<Rightarrow> frame list \<Rightarrow> nat" where
  "unplaced ctx ps stack =
     card ((set (concat (map snd (ctx_children ctx))) \<union> \<Union> (frame_ids ` set stack)) - fst ` set ps)"

definition stack_weight :: "'a place_ctx \<Rightarrow> frame list \<Rightarrow> nat" where
  "stack_weight ctx stack = sum_list (map (frame_weight (ctx_children ctx)) stack)"

function place_all :: "'a place_ctx \<Rightarrow> positions \<Rightarrow> frame list \<Rightarrow> positions" where
  "place_all ctx ps [] = ps"
| "place_all ctx ps (Call parentId # stack) =
     (let nodeChildren = neighbors (ctx_children ctx) parentId
      in if nodeChildren = [] then place_all ctx ps stack
         else case map_of ps parentId of
                None \<Rightarrow> place_all ctx ps stack
              | Some parentPos \<Rightarrow>
                  let parentLevel = level_of (ctx_levels ctx) parentId;
                      childLevel = parentLevel + 1;
                      totalWidth = (real (length nodeChildren) - 1) * ctx_nodeSpacing ctx;
                      startX = xy_x parentPos - totalWidth / 2
                  in place_all ctx ps
                       (Loop startX childLevel (zip nodeChildren [0..<length nodeChildren]) # stack))"
| "place_all ctx ps (Loop startX childLevel [] # stack) = place_all ctx ps stack"
| "place_all ctx ps (Loop startX childLevel ((childId, index) # cs) # stack) =
     (if childId \<in> fst ` set ps
      then place_all ctx ps (Loop startX childLevel cs # stack)
      else let childX = shift_right ctx ps childId childLevel 0
                          (startX + real index * ctx_nodeSpacing ctx);
               y = 100 + real_of_int childLevel * ctx_levelSpacing ctx
           in place_all ctx (AList.update childId \<lparr>xy_x = childX, xy_y = y\<rparr> ps)
                (Call childId # Loop startX childLevel cs # stack))"
  by pat_completeness auto

lemma finite_place_ids:
  "finite (set (concat (map snd (ctx_children ctx))) \<union> \<Union> (frame_ids ` set stack))"
proof -
  have "finite (frame_ids f)" for f by (cases f) auto
  then show ?thesis by auto
qed

lemma unplaced_mono:
  assumes "\<Union> (frame_ids ` set stack') \<subseteq> set (concat (map snd (ctx_children ctx))) \<union> \<Union> (frame_ids ` set stack)"
  shows "unplaced ctx ps stack' \<le> unplaced ctx ps stack"
proof -
  define T where "T = set (concat (map snd (ctx_children ctx)))"
  define S where "S = \<Union> (frame_ids ` set stack)"
  define S' where "S' = \<Union> (frame_ids ` set stack')"
  define P where "P = fst ` set ps"
  have fin: "finite ((T \<union> S) - P)"
    using finite_place_ids [of ctx stack] by (simp add: T_def S_def)
  have "S' \<subseteq> T \<union> S" unfolding T_def S_def S'_def by (rule assms)
  then have "(T \<union> S') - P \<subseteq> (T \<union> S) - P" by blast
  then have "card ((T \<union> S') - P) \<le> card ((T \<union> S) - P)" using fin by (intro card_mono)
  then show ?thesis unfolding unplaced_def T_def S_def S'_def P_def .
qed

lemma unplaced_less:
  assumes "\<Union> (frame_ids ` set stack') \<subseteq> set (concat (map snd (ctx_children ctx))) \<union> \<Union> (frame_ids ` set stack)"
    and "c \<in> \<Union> (frame_ids ` set stack)" and "c \<notin> fst ` set ps"
  shows "unplaced ctx (AList.update c v ps) stack' < unplaced ctx ps stack"
proof -
  define T where "T = set (concat (map snd (ctx_children ctx)))"
  define S where "S = \<Union> (frame_ids ` set stack)"
  define S' where "S' = \<Union> (frame_ids ` set stack')"
  define P where "P = fst ` set ps"
  have "dom (map_of (AList.update c v ps)) = insert c (dom (map_of ps))"
    by (simp add: update_conv')
  then have d: "fst ` set (AList.update c v ps) = insert c P"
    by (simp only: dom_map_of_conv_image_fst P_def)
  have fin: "finite ((T \<union> S) - P)"
    using finite_place_ids [of ctx stack] by (simp add: T_def S_def)
  have "S' \<subseteq> T \<union> S" unfolding T_def S_def S'_def by (rule assms(1))
  moreover have "c \<in> S" unfolding S_def by (rule assms(2))
  moreover have "c \<notin> P" unfolding P_def by (rule assms(3))
  ultimately have "(T \<union> S') - insert c P \<subset> (T \<union> S) - P" by blast
  then have "card ((T \<union> S') - insert c P) < card ((T \<union> S) - P)"
    using fin by (intro psubset_card_mono)
  then show ?thesis unfolding unplaced_def d T_def S_def S'_def P_def .
qed

termination place_all
proof (relation "(\<lambda>(ctx, ps, stack). unplaced ctx ps stack) <*mlex*>
                 measure (\<lambda>(ctx, ps, stack). stack_weight ctx stack)")
  show "wf ((\<lambda>(ctx, ps, stack). unplaced ctx ps stack) <*mlex*>
                 measure (\<lambda>(ctx, ps, stack). stack_weight ctx stack))"
    by (simp add: wf_mlex)
next
  fix ctx :: "'a place_ctx" and ps parentId stack
  show "((ctx, ps, stack), (ctx, ps, Call parentId # stack))
       \<in> (\<lambda>(ctx, ps, stack). unplaced ctx ps stack) <*mlex*>
                 measure (\<lambda>(ctx, ps, stack). stack_weight ctx stack)"
    by (rule mlex_leq) (auto simp: stack_weight_def intro!: unplaced_mono)
  then show "((ctx, ps, stack), (ctx, ps, Call parentId # stack))
       \<in> (\<lambda>(ctx, ps, stack). unplaced ctx ps stack) <*mlex*>
                 measure (\<lambda>(ctx, ps, stack). stack_weight ctx stack)" .
next
  fix ctx :: "'a place_ctx" and ps parentId stack x xa xb xc xd
  assume "x = neighbors (ctx_children ctx) parentId"
    "xb = level_of (ctx_levels ctx) parentId" "xc = xb + 1"
  have "set (neighbors (ctx_children ctx) parentId) \<subseteq> set (concat (map snd (ctx_children ctx)))"
    by (rule neighbors_in_targets)
  moreover have "fst ` set (zip x [0..<length x]) \<subseteq> set x"
    by (auto dest: set_zip_leftD)
  ultimately have zt: "fst ` set (zip x [0..<length x]) \<subseteq> set (concat (map snd (ctx_children ctx)))"
    unfolding \<open>x = neighbors (ctx_children ctx) parentId\<close> by (rule order_trans [rotated])
  define Z where "Z = fst ` set (zip x [0..<length x])"
  define T where "T = set (concat (map snd (ctx_children ctx)))"
  have "Z \<subseteq> T" unfolding Z_def T_def by (rule zt)
  then have "Z \<union> \<Union> (frame_ids ` set stack) \<subseteq> T \<union> \<Union> (frame_ids ` set (Call parentId # stack))"
    by auto
  then have "\<Union> (frame_ids ` set (Loop xd xc (zip x [0..<length x]) # stack))
      \<subseteq> set (concat (map snd (ctx_children ctx))) \<union> \<Union> (frame_ids ` set (Call parentId # stack))"
    by (simp only: Z_def T_def list.set image_insert Union_insert frame_ids.simps)
  then have le: "unplaced ctx ps (Loop xd xc (zip x [0..<length x]) # stack)
      \<le> unplaced ctx ps (Call parentId # stack)"
    by (rule unplaced_mono)
  have "stack_weight ctx (Loop xd xc (zip x [0..<length x]) # stack)
      < stack_weight ctx (Call parentId # stack)"
    using \<open>x = neighbors (ctx_children ctx) parentId\<close> by (simp add: stack_weight_def)
  with le show "((ctx, ps, Loop xd xc (zip x [0..<length x]) # stack), (ctx, ps, Call parentId # stack))
       \<in> (\<lambda>(ctx, ps, stack). unplaced ctx ps stack) <*mlex*>
                 measure (\<lambda>(ctx, ps, stack). stack_weight ctx stack)"
    by (intro mlex_leq) auto
next
  fix ctx :: "'a place_ctx" and ps startX childLevel stack
  show "((ctx, ps, stack), (ctx, ps, Loop startX childLevel [] # stack))
       \<in> (\<lambda>(ctx, ps, stack). unplaced ctx ps stack) <*mlex*>
                 measure (\<lambda>(ctx, ps, stack). stack_weight ctx stack)"
    by (rule mlex_leq) (auto simp: stack_weight_def intro!: unplaced_mono)
next
  fix ctx :: "'a place_ctx" and ps startX childLevel childId index cs stack
  show "((ctx, ps, Loop startX childLevel cs # stack),
         (ctx, ps, Loop startX childLevel ((childId, index) # cs) # stack))
       \<in> (\<lambda>(ctx, ps, stack). unplaced ctx ps stack) <*mlex*>
                 measure (\<lambda>(ctx, ps, stack). stack_weight ctx stack)"
    by (rule mlex_leq) (auto simp: stack_weight_def intro!: unplaced_mono)
next
  fix ctx :: "'a place_ctx" and ps :: positions and startX childLevel childId index cs stack x xa
  assume "childId \<notin> fst ` set ps"
  then have "unplaced ctx (AList.update childId \<lparr>xy_x = x, xy_y = xa\<rparr> ps)
               (Call childId # Loop startX childLevel cs # stack)
           < unplaced ctx ps (Loop startX childLevel ((childId, index) # cs) # stack)"
    by (intro unplaced_less) auto
  then show "((ctx, AList.update childId \<lparr>xy_x = x, xy_y = xa\<rparr> ps,
          Call childId # Loop startX childLevel cs # stack),
         (ctx, ps, Loop startX childLevel ((childId, index) # cs) # stack))
       \<in> (\<lambda>(ctx, ps, stack). unplaced ctx ps stack) <*mlex*>
                 measure (\<lambda>(ctx, ps, stack). stack_weight ctx stack)"
    by (intro mlex_less) simp
qed

text \<open>The strategy: levels, the positions of the roots, the placement of the children of
  each root in turn, and for a node without position the column of its level.
  The parameter \<open>direction\<close> is not read.\<close>

definition hierarchicalLayout ::
  "'a node_scheme list \<Rightarrow> 'e edge_scheme list \<Rightarrow> string \<Rightarrow> spacing \<Rightarrow> error + 'a node_scheme list" where
  "hierarchicalLayout nodes edges direction sp =
     (case build_edges edges (init_graph nodes) of
        Inl e \<Rightarrow> Inl e
      | Inr (adjacency, inDegree) \<Rightarrow>
          (case find_roots nodes inDegree of
             Inl e \<Rightarrow> Inl e
           | Inr roots \<Rightarrow>
               let levels = fst (bfs adjacency (init_bfs (map node_id roots)));
                   nodeSpacing' = calculateMinSpacing nodes (nodeSpacing sp);
                   ctx = \<lparr>ctx_children = adjacency, ctx_levels = levels, ctx_nodes = nodes,
                          ctx_nodeSpacing = nodeSpacing', ctx_levelSpacing = levelSpacing sp\<rparr>;
                   positions = place_all ctx (root_positions roots nodeSpacing')
                                 (map (\<lambda>root. Call (node_id root)) roots)
               in Inr (map (\<lambda>n. case map_of positions (node_id n) of
                                    Some p \<Rightarrow> n\<lparr>position := Some p\<rparr>
                                  | None \<Rightarrow>
                                      n\<lparr>position := Some
                                         \<lparr>xy_x = 400,
                                          xy_y = 100 + real_of_int (level_of levels (node_id n))
                                                         * levelSpacing sp\<rparr>\<rparr>)
                         nodes)))"

section \<open>Force-directed layout\<close>

text \<open>
  The working object of the simulation is the node spread into a new object together with
  \<open>x\<close>, \<open>y\<close>, \<open>vx\<close>, \<open>vy\<close> and \<open>fixed\<close>. \<open>Math.random()\<close> is the next value of a
  sequence \<open>rand\<close> of numbers in [0, 1); the counter says how many were drawn.
\<close>

record 'a sim =
  sim_node :: "'a node_scheme"
  sim_x :: real
  sim_y :: real
  sim_vx :: real
  sim_vy :: real
  sim_fixed :: bool

text \<open>\<open>node.position?.x || Math.random() * 800\<close>.\<close>

definition coord :: "real option \<Rightarrow> real \<Rightarrow> (nat \<Rightarrow> real) \<Rightarrow> nat \<Rightarrow> real \<times> nat" where
  "coord p scale rand counter =
     (case p of
        None \<Rightarrow> (rand counter * scale, Suc counter)
      | Some v \<Rightarrow> if v = 0 then (rand counter * scale, Suc counter) else (v, counter))"

definition init_sim ::
  "(nat \<Rightarrow> real) \<Rightarrow> 'a node_scheme option \<Rightarrow> 'a node_scheme \<Rightarrow>
     (string \<times> 'a sim) list \<times> nat \<Rightarrow> (string \<times> 'a sim) list \<times> nat" where
  "init_sim rand blueNode n st =
     (case st of (nodeMap, counter) \<Rightarrow>
        if Some (node_id n) = map_option node_id blueNode
        then (AList.update (node_id n)
                \<lparr>sim_node = n, sim_x = 400, sim_y = 400, sim_vx = 0, sim_vy = 0, sim_fixed = True\<rparr>
                nodeMap, counter)
        else let (x, c1) = coord (map_option xy_x (position n)) 800 rand counter;
                 (y, c2) = coord (map_option xy_y (position n)) 600 rand c1
             in (AList.update (node_id n)
                   \<lparr>sim_node = n, sim_x = x, sim_y = y, sim_vx = 0, sim_vy = 0, sim_fixed = False\<rparr>
                   nodeMap, c2))"

text \<open>An object of the \<open>Map\<close> is changed in place: by its index in \<open>nodeArray\<close>, or
  by its key.\<close>

definition change_at :: "nat \<Rightarrow> ('a sim \<Rightarrow> 'a sim) \<Rightarrow> (string \<times> 'a sim) list \<Rightarrow> (string \<times> 'a sim) list" where
  "change_at i f nodeMap = nodeMap[i := (fst (nodeMap ! i), f (snd (nodeMap ! i)))]"

definition index_of :: "string \<Rightarrow> (string \<times> 'a sim) list \<Rightarrow> nat option" where
  "index_of k nodeMap =
     (if k \<in> fst ` set nodeMap then Some (length (takeWhile (\<lambda>kv. fst kv \<noteq> k) nodeMap)) else None)"

text \<open>\<open>Math.sqrt(dx * dx + dy * dy) || 1\<close>.\<close>

definition distance_or_1 :: "real \<Rightarrow> real \<Rightarrow> real" where
  "distance_or_1 dx dy = (if sqrt (dx * dx + dy * dy) = 0 then 1 else sqrt (dx * dx + dy * dy))"

definition reset_forces :: "(string \<times> 'a sim) list \<Rightarrow> (string \<times> 'a sim) list" where
  "reset_forces nodeMap = map (\<lambda>(k, s). (k, s\<lparr>sim_vx := 0, sim_vy := 0\<rparr>)) nodeMap"

definition repel :: "real \<Rightarrow> nat \<times> nat \<Rightarrow> (string \<times> 'a sim) list \<Rightarrow> (string \<times> 'a sim) list" where
  "repel repulsionStrength ij nodeMap =
     (let a = snd (nodeMap ! fst ij);
          b = snd (nodeMap ! snd ij);
          dx = sim_x b - sim_x a;
          dy = sim_y b - sim_y a;
          distance = distance_or_1 dx dy;
          force = repulsionStrength / (distance * distance);
          m1 = change_at (fst ij)
                 (\<lambda>a. a\<lparr>sim_vx := sim_vx a - dx / distance * force,
                         sim_vy := sim_vy a - dy / distance * force\<rparr>) nodeMap
      in change_at (snd ij)
           (\<lambda>b. b\<lparr>sim_vx := sim_vx b + dx / distance * force,
                   sim_vy := sim_vy b + dy / distance * force\<rparr>) m1)"

definition pairs :: "nat \<Rightarrow> (nat \<times> nat) list" where
  "pairs n = concat (map (\<lambda>i. map (\<lambda>j. (i, j)) [Suc i..<n]) [0..<n])"

definition attract :: "'e edge_scheme \<Rightarrow> (string \<times> 'a sim) list \<Rightarrow> (string \<times> 'a sim) list" where
  "attract e nodeMap =
     (case (index_of (edge_source e) nodeMap, index_of (edge_target e) nodeMap) of
        (Some i, Some j) \<Rightarrow>
          let source = snd (nodeMap ! i);
              target = snd (nodeMap ! j);
              dx = sim_x target - sim_x source;
              dy = sim_y target - sim_y source;
              distance = distance_or_1 dx dy;
              force = distance * (1 / 10);
              m1 = change_at i
                     (\<lambda>s. s\<lparr>sim_vx := sim_vx s + dx / distance * force,
                             sim_vy := sim_vy s + dy / distance * force\<rparr>) nodeMap
          in change_at j
               (\<lambda>t. t\<lparr>sim_vx := sim_vx t - dx / distance * force,
                       sim_vy := sim_vy t - dy / distance * force\<rparr>) m1
      | _ \<Rightarrow> nodeMap)"

definition apply_forces :: "(string \<times> 'a sim) list \<Rightarrow> (string \<times> 'a sim) list" where
  "apply_forces nodeMap =
     map (\<lambda>(k, s).
            if sim_fixed s then (k, s\<lparr>sim_x := 400, sim_y := 400\<rparr>)
            else (k, s\<lparr>sim_x := max 50 (min 750 (sim_x s + sim_vx s * (9 / 10))),
                       sim_y := max 50 (min 550 (sim_y s + sim_vy s * (9 / 10)))\<rparr>))
       nodeMap"

definition force_step :: "real \<Rightarrow> 'e edge_scheme list \<Rightarrow> (string \<times> 'a sim) list \<Rightarrow> (string \<times> 'a sim) list" where
  "force_step repulsionStrength edges nodeMap =
     apply_forces
       (fold attract edges
          (fold (repel repulsionStrength) (pairs (length nodeMap)) (reset_forces nodeMap)))"

text \<open>The object returned for a working object: the working object with \<open>position\<close>.\<close>

definition sim_result :: "'a sim \<Rightarrow> 'a node_scheme" where
  "sim_result s =
     (sim_node s)\<lparr>node_x := Some (sim_x s), node_y := Some (sim_y s),
                  node_vx := Some (sim_vx s), node_vy := Some (sim_vy s),
                  node_fixed := Some (sim_fixed s),
                  position := Some \<lparr>xy_x = sim_x s, xy_y = sim_y s\<rparr>\<rparr>"

definition forceDirectedLayout ::
  "(nat \<Rightarrow> real) \<Rightarrow> 'a node_scheme list \<Rightarrow> 'e edge_scheme list \<Rightarrow> nat \<Rightarrow> spacing \<Rightarrow>
     'a node_scheme list" where
  "forceDirectedLayout rand nodes edges iterations sp =
     (let blueNode = find is_blue nodes;
          nodeMap = fst (fold (init_sim rand blueNode) nodes ([], 0));
          minSpacing = calculateMinSpacing nodes (nodeSpacing sp);
          k = minSpacing * forceRepulsion sp;
          repulsionStrength = k * k
      in map (\<lambda>(key, s). sim_result s)
           ((force_step repulsionStrength edges ^^ iterations) nodeMap))"

section \<open>Choice of the strategy by name\<close>

definition applyLayout ::
  "(nat \<Rightarrow> real) \<Rightarrow> string option \<Rightarrow> 'a node_scheme list \<Rightarrow> 'e edge_scheme list \<Rightarrow> spacing \<Rightarrow>
     error + 'a node_scheme list" where
  "applyLayout rand layoutName nodes edges sp =
     (let layout = (case layoutName of
                      None \<Rightarrow> ''circular''
                    | Some l \<Rightarrow> if toLowerCase l = [] then ''circular'' else toLowerCase l)
      in if layout = ''hierarchical'' \<or> layout = ''dot''
         then hierarchicalLayout nodes edges ''TB'' sp
         else if layout = ''force'' \<or> layout = ''fdp'' \<or> layout = ''neato''
         then Inr (forceDirectedLayout rand nodes edges 50 sp)
         else if layout = ''radial'' \<or> layout = ''twopi''
         then radialLayout nodes edges None sp
         else if layout = ''grid''
         then Inr (gridLayout nodes None sp)
         else Inr (circularLayout nodes 400 400 sp))"

section \<open>Properties of the strategies\<close>

text \<open>A node for which the simulation draws no random number.\<close>

definition no_draw :: "'a node_scheme option \<Rightarrow> 'a node_scheme \<Rightarrow> bool" where
  "no_draw blueNode n =
     (Some (node_id n) = map_option node_id blueNode
      \<or> (case position n of None \<Rightarrow> False | Some p \<Rightarrow> xy_x p \<noteq> 0 \<and> xy_y p \<noteq> 0))"

text \<open>What a strategy may change in a node: the position only, or the position and the
  five properties of the working object of the force simulation, which it then has.\<close>

definition only_position_changed :: "'a node_scheme \<Rightarrow> 'a node_scheme \<Rightarrow> bool" where
  "only_position_changed n out = (out = n\<lparr>position := position out\<rparr>)"

definition position_and_working_fields_changed :: "'a node_scheme \<Rightarrow> 'a node_scheme \<Rightarrow> bool" where
  "position_and_working_fields_changed n out =
     (out = n\<lparr>position := position out, node_x := node_x out, node_y := node_y out,
              node_vx := node_vx out, node_vy := node_vy out, node_fixed := node_fixed out\<rparr>
      \<and> node_x out \<noteq> None \<and> node_y out \<noteq> None \<and> node_vx out \<noteq> None \<and> node_vy out \<noteq> None
      \<and> node_fixed out \<noteq> None)"

section \<open>Regular expressions\<close>

text \<open>
  The parser is written with regular expressions. They are modelled as data, with the
  backtracking matcher of the language: alternatives are tried from left to right, a greedy
  repetition tries one more round first, a lazy one tries to go on first, and a round that
  consumes nothing is refused. Characters are 8-bit; \<open>\\w\<close>, \<open>\\s\<close> and \<open>.\<close> are the
  classes \<open>Word\<close>, \<open>Space\<close> and \<open>Dot\<close>, \<open>NoCase\<close> is a letter under the flag \<open>i\<close>,
  \<open>Eol\<close> is \<open>$\<close> under the flag \<open>m\<close>. The state of a match is the text not yet
  consumed and the captured groups.
\<close>

datatype cls = Lit char | NoCase char | NotOf "char list" | Word | Space | Dot | Any

definition is_word :: "char \<Rightarrow> bool" where
  "is_word c = (let n = (of_char c :: nat) in
      (48 \<le> n \<and> n \<le> 57) \<or> (65 \<le> n \<and> n \<le> 90) \<or> (97 \<le> n \<and> n \<le> 122) \<or> n = 95)"

definition is_space :: "char \<Rightarrow> bool" where
  "is_space c = ((of_char c :: nat) \<in> {9, 10, 11, 12, 13, 32, 160})"

definition is_line_end :: "char \<Rightarrow> bool" where
  "is_line_end c = ((of_char c :: nat) \<in> {10, 13})"

fun cls_match :: "cls \<Rightarrow> char \<Rightarrow> bool" where
  "cls_match (Lit c) x = (x = c)"
| "cls_match (NoCase c) x = (lower x = lower c)"
| "cls_match (NotOf cs) x = (x \<notin> set cs)"
| "cls_match Word x = is_word x"
| "cls_match Space x = is_space x"
| "cls_match Dot x = (\<not> is_line_end x)"
| "cls_match Any x = True"

datatype re = Sym cls | Eps | Eol | Seq re re | Alt re re | Star re | Lazy re | Opt re | Group nat re

type_synonym mstate = "string \<times> (nat \<times> string) list"

function (sequential) re_match :: "re \<Rightarrow> (mstate \<Rightarrow> 'r option) \<Rightarrow> mstate \<Rightarrow> 'r option" where
  "re_match (Sym c) k (s, cs) = (case s of [] \<Rightarrow> None | x # xs \<Rightarrow> if cls_match c x then k (xs, cs) else None)"
| "re_match Eps k st = k st"
| "re_match Eol k (s, cs) = (case s of [] \<Rightarrow> k (s, cs) | x # xs \<Rightarrow> if is_line_end x then k (s, cs) else None)"
| "re_match (Seq a b) k st = re_match a (\<lambda>st'. re_match b k st') st"
| "re_match (Alt a b) k st = (case re_match a k st of Some r \<Rightarrow> Some r | None \<Rightarrow> re_match b k st)"
| "re_match (Star a) k (s, cs) =
     (case re_match a (\<lambda>st'. if length (fst st') < length s then re_match (Star a) k st' else None) (s, cs) of
        Some r \<Rightarrow> Some r
      | None \<Rightarrow> k (s, cs))"
| "re_match (Lazy a) k (s, cs) =
     (case k (s, cs) of
        Some r \<Rightarrow> Some r
      | None \<Rightarrow> re_match a (\<lambda>st'. if length (fst st') < length s then re_match (Lazy a) k st' else None) (s, cs))"
| "re_match (Opt a) k st = (case re_match a k st of Some r \<Rightarrow> Some r | None \<Rightarrow> k st)"
| "re_match (Group n a) k (s, cs) =
     re_match a (\<lambda>st'. k (fst st', AList.update n (take (length s - length (fst st')) s) (snd st'))) (s, cs)"
  by pat_completeness auto

termination re_match
  by (relation "measures [\<lambda>(r, k, st). size r, \<lambda>(r, k, st). length (fst st)]") auto

definition one_or_more :: "re \<Rightarrow> re" where "one_or_more a = Seq a (Star a)"

fun seqs :: "re list \<Rightarrow> re" where
  "seqs [] = Eps"
| "seqs [a] = a"
| "seqs (a # as) = Seq a (seqs as)"

definition lit :: "string \<Rightarrow> re" where "lit s = seqs (map (\<lambda>c. Sym (Lit c)) s)"
definition nocase :: "string \<Rightarrow> re" where "nocase s = seqs (map (\<lambda>c. Sym (NoCase c)) s)"

text \<open>A match that starts at the first character of the text: the rest of the text and
  the groups.\<close>

definition match_at :: "re \<Rightarrow> string \<Rightarrow> mstate option" where
  "match_at r s = re_match r Some (s, [])"

text \<open>The first match at or after the start of the text: its index (counted from \<open>i\<close>),
  the matched text, the groups, and the rest.\<close>

fun search :: "re \<Rightarrow> nat \<Rightarrow> string \<Rightarrow> (nat \<times> string \<times> (nat \<times> string) list \<times> string) option" where
  "search r i [] =
     (case match_at r [] of
        Some (rest, cs) \<Rightarrow> Some (i, [], cs, rest)
      | None \<Rightarrow> None)"
| "search r i (x # xs) =
     (case match_at r (x # xs) of
        Some (rest, cs) \<Rightarrow> Some (i, take (length (x # xs) - length rest) (x # xs), cs, rest)
      | None \<Rightarrow> search r (Suc i) xs)"

lemma search_rest:
  "search r i s = Some (j, matched, cs, rest) \<Longrightarrow> matched \<noteq> [] \<Longrightarrow> length rest < length s"
proof (induction s arbitrary: i)
  case Nil
  then show ?case by (auto split: option.splits)
next
  case (Cons x xs)
  show ?case
  proof (cases "match_at r (x # xs)")
    case None
    with Cons.prems have "search r (Suc i) xs = Some (j, matched, cs, rest)" by simp
    from Cons.IH [OF this Cons.prems(2)] show ?thesis by simp
  next
    case (Some a)
    with Cons.prems show ?thesis by (cases a) auto
  qed
qed

text \<open>
  The loop \<open>while ((match = pattern.exec(text)) !== null)\<close> of a pattern with the flag
  \<open>g\<close>: the index and the groups of every match, each search starting where the match
  before ended. A match of the empty text would keep the loop at the same place for ever;
  the list ends there.
\<close>

function exec_all :: "re \<Rightarrow> nat \<Rightarrow> string \<Rightarrow> (nat \<times> (nat \<times> string) list) list" where
  "exec_all r i s =
     (case search r i s of
        None \<Rightarrow> []
      | Some (j, matched, cs, rest) \<Rightarrow>
          if matched = [] then [] else (j, cs) # exec_all r (j + length matched) rest)"
  by pat_completeness auto

termination exec_all
  by (relation "measure (\<lambda>(r, i, s). length s)") (auto dest: search_rest)

declare exec_all.simps [simp del]

text \<open>\<open>text.replace(pattern, '')\<close> with the flag \<open>g\<close>: every match is left out; after a
  match of the empty text the next character is kept.\<close>

function replace_all :: "re \<Rightarrow> string \<Rightarrow> string" where
  "replace_all r [] = []"
| "replace_all r (x # xs) =
     (case match_at r (x # xs) of
        None \<Rightarrow> x # replace_all r xs
      | Some (rest, cs) \<Rightarrow>
          if length rest < length (x # xs) then replace_all r rest else x # replace_all r xs)"
  by pat_completeness auto

termination replace_all
  by (relation "measure (\<lambda>(r, s). length s)") auto

text \<open>\<open>text.replace(pattern, replacement)\<close> without the flag \<open>g\<close>: the first match only.\<close>

definition replace_first :: "re \<Rightarrow> string \<Rightarrow> string \<Rightarrow> string" where
  "replace_first r replacement s =
     (case search r 0 s of
        None \<Rightarrow> s
      | Some (j, matched, cs, rest) \<Rightarrow> take j s @ replacement @ rest)"

text \<open>\<open>a || b\<close> on texts that may be undefined, \<open>text.trim()\<close>,
  \<open>text.includes(part)\<close>, the text after the last line feed, and the decimal digits of a
  number.\<close>

definition js_or :: "string option \<Rightarrow> string option \<Rightarrow> string option" where
  "js_or a b = (case a of Some (x # xs) \<Rightarrow> a | _ \<Rightarrow> b)"

definition trim :: "string \<Rightarrow> string" where
  "trim s = rev (dropWhile is_space (rev (dropWhile is_space s)))"

fun str_includes :: "string \<Rightarrow> string \<Rightarrow> bool" where
  "str_includes part [] = (part = [])"
| "str_includes part (x # xs) = (take (length part) (x # xs) = part \<or> str_includes part xs)"

definition last_line :: "string \<Rightarrow> string" where
  "last_line s = rev (takeWhile (\<lambda>c. c \<noteq> CHR 0x0A) (rev s))"

fun digits :: "nat \<Rightarrow> string" where
  "digits n = (if n < 10 then [char_of (48 + n)] else digits (n div 10) @ [char_of (48 + n mod 10)])"

section \<open>The DOT parser\<close>

text \<open>The patterns of the parser. An identifier is a quoted text or a word; the groups are
  numbered as in the source.\<close>

definition spaces :: re where
  "spaces = Star (Sym Space)"

definition quote :: re where
  "quote = Sym (Lit (CHR 0x22))"

definition not_quote :: re where
  "not_quote = Sym (NotOf [CHR 0x22])"

definition ident :: "nat \<Rightarrow> nat \<Rightarrow> nat \<Rightarrow> re" where
  "ident g q w = Group g (Alt (seqs [quote, Group q (one_or_more not_quote), quote]) (Group w (one_or_more (Sym Word))))"

definition attr_list :: "nat \<Rightarrow> re" where
  "attr_list g = Opt (seqs [spaces, lit ''['', Group g (Lazy (Sym Dot)), lit '']''])"

definition line_comment :: re where
  "line_comment = seqs [lit ''//'', Star (Sym Dot), Eol]"

definition block_comment :: re where
  "block_comment = seqs [lit ''/*'', Lazy (Sym Any), lit ''*/'']"

definition graph_declaration :: "string \<Rightarrow> re" where
  "graph_declaration graphType = seqs [lit graphType, one_or_more (Sym Space), Star (Sym Word), spaces, lit ''{'']"

text \<open>\<open>name\s*=\s*"[^"]*"\s*;\<close>, \<open>name\s*=\s*\w+\s*;\<close> and \<open>name\s*=\s*[^;]+;\<close>, with the
  flag \<open>i\<close>.\<close>

definition quoted_setting :: "string \<Rightarrow> re" where
  "quoted_setting name =
     seqs [nocase name, spaces, lit ''='', spaces, quote, Star not_quote, quote, spaces, lit '';'']"

definition word_setting :: "string \<Rightarrow> re" where
  "word_setting name = seqs [nocase name, spaces, lit ''='', spaces, one_or_more (Sym Word), spaces, lit '';'']"

definition any_setting :: "string \<Rightarrow> re" where
  "any_setting name = seqs [nocase name, spaces, lit ''='', spaces, one_or_more (Sym (NotOf '';'')), lit '';'']"

definition graphAttributePatterns :: "re list" where
  "graphAttributePatterns =
     [quoted_setting ''layout'',
      word_setting ''layout'',
      seqs [nocase ''node'', spaces, lit ''['', Star (Sym (NotOf '']'')), lit '']'', spaces, lit '';''],
      any_setting ''ranksep'',
      any_setting ''concentrate'',
      quoted_setting ''overlap'',
      word_setting ''overlap'',
      word_setting ''splines'',
      any_setting ''nodesep'',
      any_setting ''rankdir'',
      quoted_setting ''size'',
      any_setting ''ratio'']"

definition nodeDefPattern :: re where
  "nodeDefPattern = seqs [ident 1 2 3, attr_list 4, spaces, lit '';'']"

definition edgePattern :: "bool \<Rightarrow> re" where
  "edgePattern isDirected =
     seqs [ident 1 2 3, spaces, lit (if isDirected then ''->'' else ''--''), spaces, ident 4 5 6,
           attr_list 7]"

definition attrPattern :: re where
  "attrPattern =
     Alt (seqs [Group 1 (one_or_more (Sym Word)), spaces, lit ''='', spaces, quote,
                Group 2 (Star not_quote), quote])
         (seqs [Group 3 (one_or_more (Sym Word)), spaces, lit ''='', spaces,
                Group 4 (one_or_more (Sym (NotOf '';,]'')))])"

text \<open>A group of a match: \<open>None\<close> when the group took no part in it.\<close>

definition grp :: "(nat \<times> string) list \<Rightarrow> nat \<Rightarrow> string option" where
  "grp cs n = map_of cs n"

definition text_of :: "string option \<Rightarrow> string" where
  "text_of a = (case a of None \<Rightarrow> [] | Some s \<Rightarrow> s)"

subsection \<open>Attribute lists\<close>

text \<open>The object \<open>parseAttributes\<close> builds: its properties in insertion order; the
  property \<open>style\<close> holds an object of texts, every other property a text.\<close>

datatype jsval = JStr string | JObj "(string \<times> string) list"

type_synonym jsobj = "(string \<times> jsval) list"

definition truthy :: "jsval option \<Rightarrow> bool" where
  "truthy v = (case v of None \<Rightarrow> False | Some (JStr s) \<Rightarrow> s \<noteq> [] | Some (JObj ob) \<Rightarrow> True)"

definition style_of :: "jsobj \<Rightarrow> (string \<times> string) list" where
  "style_of attrs = (case map_of attrs ''style'' of Some (JObj st) \<Rightarrow> st | _ \<Rightarrow> [])"

definition label_of :: "jsobj \<Rightarrow> string option" where
  "label_of attrs = (case map_of attrs ''label'' of Some (JStr l) \<Rightarrow> Some l | _ \<Rightarrow> None)"

text \<open>The body of the \<open>switch\<close>. A key \<open>__proto__\<close> in the default branch sets no
  property.\<close>

definition set_attr :: "string \<Rightarrow> string \<Rightarrow> jsobj \<Rightarrow> jsobj" where
  "set_attr key val attrs =
     (if key = ''label'' then AList.update ''label'' (JStr val) attrs
      else if key = ''color''
      then AList.update ''style'' (JObj (AList.update ''stroke'' val (style_of attrs))) attrs
      else if key = ''fillcolor''
      then AList.update ''style'' (JObj (AList.update ''background'' val (style_of attrs))) attrs
      else if key = ''style''
      then let st = style_of attrs;
               st' = (if val = ''filled''
                      then AList.update ''background''
                             (case map_of st ''background'' of
                                None \<Rightarrow> ''#fff''
                              | Some b \<Rightarrow> if b = [] then ''#fff'' else b) st
                      else st)
           in AList.update ''_style'' (JStr val) (AList.update ''style'' (JObj st') attrs)
      else if key = ''shape'' then AList.update ''shape'' (JStr val) attrs
      else if key = ''__proto__'' then attrs
      else AList.update key (JStr val) attrs)"

text \<open>One round of the loop of \<open>parseAttributes\<close>. \<open>(match[2] || match[4]).trim()\<close> raises
  a TypeError when the quoted value is empty: \<open>match[2]\<close> is the empty text and \<open>match[4]\<close>
  is undefined.\<close>

fun parse_attr_matches :: "(nat \<times> (nat \<times> string) list) list \<Rightarrow> jsobj \<Rightarrow> error + jsobj" where
  "parse_attr_matches [] attrs = Inr attrs"
| "parse_attr_matches ((i, cs) # ms) attrs =
     (case (js_or (grp cs 1) (grp cs 3), js_or (grp cs 2) (grp cs 4)) of
        (Some key, Some val) \<Rightarrow> parse_attr_matches ms (set_attr (trim key) (trim val) attrs)
      | _ \<Rightarrow> Inl TypeError)"

definition parseAttributes :: "string \<Rightarrow> error + jsobj" where
  "parseAttributes attrString =
     (if attrString = [] then Inr []
      else parse_attr_matches (exec_all attrPattern 0 attrString) [])"

subsection \<open>Cleaning the text\<close>

definition strip_comments :: "string \<Rightarrow> string" where
  "strip_comments dotContent = trim (replace_all block_comment (replace_all line_comment dotContent))"

definition clean :: "string \<Rightarrow> string" where
  "clean dotContent =
     (let cleaned = strip_comments dotContent;
          graphType = (if str_includes ''digraph'' cleaned then ''digraph'' else ''graph'');
          cleaned1 = replace_first (graph_declaration graphType) ''{'' cleaned
      in fold replace_all graphAttributePatterns cleaned1)"

subsection \<open>Node definitions\<close>

text \<open>A match of the node pattern: its index, the identifier
  (\<open>match[2] || match[3] || match[1]\<close>) and the attribute text (\<open>match[4] || ''\<close>).\<close>

definition node_def_matches :: "string \<Rightarrow> (nat \<times> string \<times> string) list" where
  "node_def_matches cleaned =
     map (\<lambda>(i, cs). (i, text_of (js_or (grp cs 2) (js_or (grp cs 3) (grp cs 1))), text_of (grp cs 4)))
       (exec_all nodeDefPattern 0 cleaned)"

text \<open>The two tests that skip a match: the text before it on its line has an \<open>=\<close> and no
  edge operator, or the identifier is a keyword without attributes.\<close>

definition graphKeywords :: "string list" where
  "graphKeywords = [''node'', ''edge'', ''graph'', ''digraph'', ''subgraph'']"

definition skipped :: "string \<Rightarrow> nat \<times> string \<times> string \<Rightarrow> bool" where
  "skipped cleaned d =
     (case d of (i, nodeId, attributes) \<Rightarrow>
        (let lastLine = last_line (take i cleaned)
         in str_includes ''='' lastLine \<and> \<not> (str_includes ''->'' lastLine \<or> str_includes ''--'' lastLine))
        \<or> (toLowerCase nodeId \<in> set graphKeywords \<and> attributes = []))"

text \<open>The identifiers the first pass takes as nodes, in the order of the text.\<close>

definition node_defs :: "string \<Rightarrow> (nat \<times> string \<times> string) list" where
  "node_defs cleaned = filter (\<lambda>d. \<not> skipped cleaned d) (node_def_matches cleaned)"

text \<open>\<open>nodeMap\<close> in insertion order, and \<open>processedNodeDefs\<close>; its key
  \<open>`${nodeId}-${index}`\<close> is kept as the pair it is made of.\<close>

type_synonym node_map = "(string \<times> node) list"

definition merge_style :: "(string \<times> string) list option \<Rightarrow> (string \<times> string) list \<Rightarrow> (string \<times> string) list" where
  "merge_style existing new =
     fold (\<lambda>(k, v). AList.update k v) new (case existing of None \<Rightarrow> [] | Some st \<Rightarrow> st)"

definition define_node :: "string \<Rightarrow> jsobj \<Rightarrow> node_map \<Rightarrow> node_map" where
  "define_node nodeId nodeAttrs nodeMap =
     (case map_of nodeMap nodeId of
        None \<Rightarrow>
          AList.update nodeId
            (new_node nodeId
               (case label_of nodeAttrs of
                  None \<Rightarrow> nodeId
                | Some l \<Rightarrow> if l = [] then nodeId else l)
               (if truthy (map_of nodeAttrs ''style'') then Some (style_of nodeAttrs) else None))
            nodeMap
      | Some existing \<Rightarrow>
          let e1 = (if truthy (map_of nodeAttrs ''style'')
                    then existing\<lparr>style := Some (merge_style (style existing) (style_of nodeAttrs))\<rparr>
                    else existing);
              e2 = (case label_of nodeAttrs of
                      None \<Rightarrow> e1
                    | Some l \<Rightarrow> if l = [] then e1 else e1\<lparr>data_label := Some l\<rparr>);
              e3 = e2\<lparr>width := Some (num_or (width e2) 150), height := Some (num_or (height e2) 40)\<rparr>
          in AList.update nodeId e3 nodeMap)"

fun process_defs ::
  "(nat \<times> string \<times> string) list \<Rightarrow> node_map \<times> (string \<times> nat) list \<Rightarrow>
     error + node_map \<times> (string \<times> nat) list" where
  "process_defs [] st = Inr st"
| "process_defs ((i, nodeId, attributes) # ds) (nodeMap, processedNodeDefs) =
     (if (nodeId, i) \<in> set processedNodeDefs then process_defs ds (nodeMap, processedNodeDefs)
      else if map_of nodeMap nodeId = None \<or> attributes \<noteq> []
      then (case parseAttributes attributes of
              Inl e \<Rightarrow> Inl e
            | Inr nodeAttrs \<Rightarrow>
                process_defs ds (define_node nodeId nodeAttrs nodeMap, (nodeId, i) # processedNodeDefs))
      else process_defs ds (nodeMap, (nodeId, i) # processedNodeDefs))"

subsection \<open>Edges\<close>

text \<open>A match of the edge pattern: source, target and attribute text.\<close>

definition edge_matches :: "bool \<Rightarrow> string \<Rightarrow> (string \<times> string \<times> string) list" where
  "edge_matches isDirected cleaned =
     map (\<lambda>(i, cs). (text_of (js_or (grp cs 2) (js_or (grp cs 3) (grp cs 1))),
                      text_of (js_or (grp cs 5) (js_or (grp cs 6) (grp cs 4))),
                      text_of (grp cs 7)))
       (exec_all (edgePattern isDirected) 0 cleaned)"

definition ensure_node :: "string \<Rightarrow> node_map \<Rightarrow> node_map" where
  "ensure_node i nodeMap =
     (case map_of nodeMap i of None \<Rightarrow> AList.update i (new_node i i None) nodeMap | Some n \<Rightarrow> nodeMap)"

text \<open>The edge object: \<open>id\<close>, \<open>source\<close> and \<open>target\<close>, then the properties of the
  attributes spread over them.\<close>

definition make_edge :: "string \<Rightarrow> string \<Rightarrow> nat \<Rightarrow> jsobj \<Rightarrow> jsobj" where
  "make_edge source target nodeIdCounter edgeAttrs =
     fold (\<lambda>(k, v). AList.update k v) edgeAttrs
       [(''id'', JStr (''e'' @ source @ ''-'' @ target @ ''-'' @ digits nodeIdCounter)),
        (''source'', JStr source), (''target'', JStr target)]"

fun process_edges ::
  "(string \<times> string \<times> string) list \<Rightarrow> node_map \<times> jsobj list \<times> nat \<Rightarrow>
     error + node_map \<times> jsobj list \<times> nat" where
  "process_edges [] st = Inr st"
| "process_edges ((source, target, attributes) # ms) (nodeMap, edges, nodeIdCounter) =
     (case parseAttributes attributes of
        Inl e \<Rightarrow> Inl e
      | Inr edgeAttrs \<Rightarrow>
          process_edges ms
            (ensure_node target (ensure_node source nodeMap),
             edges @ [make_edge source target nodeIdCounter edgeAttrs],
             Suc nodeIdCounter))"

definition default_type :: "jsobj \<Rightarrow> jsobj" where
  "default_type e = (if truthy (map_of e ''type'') then e else AList.update ''type'' (JStr ''floating'') e)"

definition parseDotToReactFlow :: "string \<Rightarrow> error + node list \<times> jsobj list" where
  "parseDotToReactFlow dotContent =
     (let isDirected = str_includes ''digraph'' (strip_comments dotContent);
          cleaned = clean dotContent
      in case process_defs (node_defs cleaned) ([], []) of
           Inl e \<Rightarrow> Inl e
         | Inr (nodeMap, processedNodeDefs) \<Rightarrow>
             (case process_edges (edge_matches isDirected cleaned) (nodeMap, [], 0) of
                Inl e \<Rightarrow> Inl e
              | Inr (nodeMap', edges, nodeIdCounter) \<Rightarrow>
                  Inr (map snd nodeMap', map default_type edges)))"

text \<open>\<open>edge.source\<close> and \<open>edge.target\<close> of an edge of the result.\<close>

definition prop_text :: "jsobj \<Rightarrow> string \<Rightarrow> string option" where
  "prop_text ob k = (case map_of ob k of Some (JStr s) \<Rightarrow> Some s | _ \<Rightarrow> None)"

section \<open>Properties of the parser\<close>

text \<open>Every match of the expression contains the character.\<close>

fun requires :: "char \<Rightarrow> re \<Rightarrow> bool" where
  "requires c (Sym cl) = (cl = Lit c)"
| "requires c (Seq a b) = (requires c a \<or> requires c b)"
| "requires c (Alt a b) = (requires c a \<and> requires c b)"
| "requires c (Group n a) = requires c a"
| "requires c r = False"

text \<open>The elements of a list in the order of their first occurrence.\<close>

definition first_occurrences :: "'a list \<Rightarrow> 'a list" where
  "first_occurrences xs = rev (remdups (rev xs))"

text \<open>\<open>nodeMap.set\<close> of a key, seen on the list of keys; and the invariant that every
  node is stored under its id.\<close>

definition add_key :: "'a \<Rightarrow> 'a list \<Rightarrow> 'a list" where
  "add_key k ks = (if k \<in> set ks then ks else ks @ [k])"

definition keyed :: "node_map \<Rightarrow> bool" where
  "keyed nodeMap = (\<forall>kn \<in> set nodeMap. node_id (snd kn) = fst kn)"

text \<open>
  What a pattern can match, as a relation between the state before and the state after:
  the matcher returns one of these matches, the first in its order of preference.
\<close>

inductive steps :: "re \<Rightarrow> mstate \<Rightarrow> mstate \<Rightarrow> bool" where
  sym: "cls_match c x \<Longrightarrow> steps (Sym c) (x # xs, cs) (xs, cs)"
| eps: "steps Eps st st"
| eol: "s = [] \<or> is_line_end (hd s) \<Longrightarrow> steps Eol (s, cs) (s, cs)"
| seq: "steps a st st1 \<Longrightarrow> steps b st1 st2 \<Longrightarrow> steps (Seq a b) st st2"
| alt1: "steps a st st1 \<Longrightarrow> steps (Alt a b) st st1"
| alt2: "steps b st st1 \<Longrightarrow> steps (Alt a b) st st1"
| star0: "steps (Star a) st st"
| star1: "steps a st st1 \<Longrightarrow> length (fst st1) < length (fst st) \<Longrightarrow> steps (Star a) st1 st2 \<Longrightarrow>
          steps (Star a) st st2"
| lazy0: "steps (Lazy a) st st"
| lazy1: "steps a st st1 \<Longrightarrow> length (fst st1) < length (fst st) \<Longrightarrow> steps (Lazy a) st1 st2 \<Longrightarrow>
          steps (Lazy a) st st2"
| opt0: "steps (Opt a) st st"
| opt1: "steps a st st1 \<Longrightarrow> steps (Opt a) st st1"
| group: "steps a (s, cs) (s', cs') \<Longrightarrow>
          steps (Group n a) (s, cs) (s', AList.update n (take (length s - length s') s) cs')"

text \<open>A text that occurs in another one, and a pattern without groups.\<close>

definition part_of :: "string \<Rightarrow> string \<Rightarrow> bool" where
  "part_of c s = (\<exists>p q. s = p @ c @ q)"

fun plain :: "re \<Rightarrow> bool" where
  "plain (Group n a) = False"
| "plain (Seq a b) = (plain a \<and> plain b)"
| "plain (Alt a b) = (plain a \<and> plain b)"
| "plain (Star a) = plain a"
| "plain (Lazy a) = plain a"
| "plain (Opt a) = plain a"
| "plain r = True"
section \<open>Example graphs\<close>

text \<open>A directed acyclic graph: R \<rightarrow> A, R \<rightarrow> B, B \<rightarrow> A, A \<rightarrow> C.\<close>

definition dag_nodes :: "node list" where
  "dag_nodes = [new_node ''R'' ''R'' None, new_node ''A'' ''A'' None, new_node ''B'' ''B'' None, new_node ''C'' ''C'' None]"
definition dag_edges :: "edge list" where
  "dag_edges = [\<lparr>edge_source = ''R'', edge_target = ''A''\<rparr>, \<lparr>edge_source = ''R'', edge_target = ''B''\<rparr>,
         \<lparr>edge_source = ''B'', edge_target = ''A''\<rparr>, \<lparr>edge_source = ''A'', edge_target = ''C''\<rparr>]"

text \<open>The cycle A \<rightarrow> B \<rightarrow> C \<rightarrow> A.\<close>

definition cycle_nodes :: "node list" where
  "cycle_nodes = [new_node ''A'' ''A'' None, new_node ''B'' ''B'' None, new_node ''C'' ''C'' None]"

definition cycle_edges :: "edge list" where
  "cycle_edges = [\<lparr>edge_source = ''A'', edge_target = ''B''\<rparr>, \<lparr>edge_source = ''B'', edge_target = ''C''\<rparr>,
         \<lparr>edge_source = ''C'', edge_target = ''A''\<rparr>]"


definition star_nodes :: "node list" where
  "star_nodes = [new_node ''A'' ''A'' None, new_node ''B'' ''B'' None, new_node ''C'' ''C'' None]"

definition star_edges :: "edge list" where
  "star_edges = [\<lparr>edge_source = ''A'', edge_target = ''B''\<rparr>, \<lparr>edge_source = ''A'', edge_target = ''C''\<rparr>]"

section \<open>Leveling: invariants\<close>

text \<open>The equations that evaluate the hierarchical levels of a concrete graph.\<close>

lemmas hier_eval = hierarchical_level_def hierarchical_levels_def hierarchical_dequeued_def
  init_graph_def add_node_def find_roots_def init_bfs_def add_root_def neighbors_def visit_def
  get_or_0_def level_of_def new_node_def

lemma level_of_nonneg: "levels_ok (levels, visited, queue) \<Longrightarrow> 0 \<le> level_of levels k"
  by (auto simp: levels_ok_def level_of_def split: option.splits)

lemma visit_ok:
  "levels_ok st \<Longrightarrow> 0 \<le> c \<Longrightarrow> levels_ok (visit c n st)"
  by (cases st) (auto simp: levels_ok_def visit_def update_conv' split: if_splits)

lemma visit_mono:
  "levels_ok st \<Longrightarrow> 0 \<le> c \<Longrightarrow> level_of (fst st) k \<le> level_of (fst (visit c n st)) k"
  by (cases st) (auto simp: levels_ok_def visit_def level_of_def update_conv' split: option.splits)

lemma visit_reaches:
  "c + 1 \<le> level_of (fst (visit c n st)) n"
  by (cases st) (auto simp: visit_def level_of_def update_conv' split: option.splits)

lemma fold_visit_ok:
  "levels_ok st \<Longrightarrow> 0 \<le> c \<Longrightarrow> levels_ok (fold (visit c) ns st)"
  by (induction ns arbitrary: st) (auto simp: visit_ok)

lemma fold_visit_mono:
  "levels_ok st \<Longrightarrow> 0 \<le> c \<Longrightarrow> level_of (fst st) k \<le> level_of (fst (fold (visit c) ns st)) k"
proof (induction ns arbitrary: st)
  case Nil
  then show ?case by simp
next
  case (Cons n ns)
  have "level_of (fst st) k \<le> level_of (fst (visit c n st)) k"
    using Cons.prems by (rule visit_mono)
  also have "\<dots> \<le> level_of (fst (fold (visit c) ns (visit c n st))) k"
    using Cons.prems by (intro Cons.IH visit_ok)
  finally show ?case by simp
qed

lemma fold_visit_reaches:
  "levels_ok st \<Longrightarrow> 0 \<le> c \<Longrightarrow> n \<in> set ns \<Longrightarrow> c + 1 \<le> level_of (fst (fold (visit c) ns st)) n"
proof (induction ns arbitrary: st)
  case Nil
  then show ?case by simp
next
  case (Cons m ns)
  show ?case
  proof (cases "n = m")
    case True
    have "c + 1 \<le> level_of (fst (visit c m st)) m" by (rule visit_reaches)
    also have "\<dots> \<le> level_of (fst (fold (visit c) ns (visit c m st))) m"
      using Cons.prems by (intro fold_visit_mono visit_ok)
    finally show ?thesis using True by simp
  next
    case False
    with Cons.prems have "n \<in> set ns" by simp
    then show ?thesis using Cons.prems Cons.IH [of "visit c m st"] by (simp add: visit_ok)
  qed
qed

lemma bfs_ok: "levels_ok st \<Longrightarrow> levels_ok (bfs adjacency st)"
proof (induction adjacency st rule: bfs.induct)
  case (1 adjacency levels visited)
  then show ?case by simp
next
  case (2 adjacency levels visited currentId queue)
  have ok: "levels_ok (levels, visited, queue)"
    using "2.prems" by (simp add: levels_ok_def)
  then have "0 \<le> level_of levels currentId" by (rule level_of_nonneg)
  with ok show ?case using "2.IH" by (simp add: fold_visit_ok)
qed

lemma bfs_mono: "levels_ok st \<Longrightarrow> level_of (fst st) k \<le> level_of (fst (bfs adjacency st)) k"
proof (induction adjacency st rule: bfs.induct)
  case (1 adjacency levels visited)
  then show ?case by simp
next
  case (2 adjacency levels visited currentId queue)
  let ?c = "level_of levels currentId"
  let ?s = "fold (visit ?c) (neighbors adjacency currentId) (levels, visited, queue)"
  have ok: "levels_ok (levels, visited, queue)"
    using "2.prems" by (simp add: levels_ok_def)
  then have c: "0 \<le> ?c" by (rule level_of_nonneg)
  have "level_of levels k \<le> level_of (fst ?s) k"
    using fold_visit_mono [OF ok c, of k] by simp
  also have "\<dots> \<le> level_of (fst (bfs adjacency ?s)) k"
    using ok c by (intro "2.IH" fold_visit_ok)
  finally show ?case by simp
qed

lemma bfs_dequeued_edge:
  "levels_ok st \<Longrightarrow> (u, l) \<in> set (bfs_dequeued adjacency st) \<Longrightarrow> v \<in> set (neighbors adjacency u)
     \<Longrightarrow> l + 1 \<le> level_of (fst (bfs adjacency st)) v \<and> l \<le> level_of (fst (bfs adjacency st)) u"
proof (induction adjacency st rule: bfs.induct)
  case (1 adjacency levels visited)
  then show ?case by simp
next
  case (2 adjacency levels visited currentId queue)
  let ?c = "level_of levels currentId"
  let ?s = "fold (visit ?c) (neighbors adjacency currentId) (levels, visited, queue)"
  have ok: "levels_ok (levels, visited, queue)"
    using "2.prems" by (simp add: levels_ok_def)
  then have c: "0 \<le> ?c" by (rule level_of_nonneg)
  have ok': "levels_ok ?s" using ok c by (rule fold_visit_ok)
  show ?case
  proof (cases "(u, l) = (currentId, ?c)")
    case True
    then have ul: "u = currentId" "l = ?c" by auto
    have "?c + 1 \<le> level_of (fst ?s) v"
      using ok c "2.prems"(3) ul by (intro fold_visit_reaches) auto
    also have "\<dots> \<le> level_of (fst (bfs adjacency ?s)) v"
      using ok' by (rule bfs_mono)
    finally have a: "l + 1 \<le> level_of (fst (bfs adjacency ?s)) v" using ul by simp
    have "?c \<le> level_of (fst ?s) u"
      using fold_visit_mono [OF ok c, of u] ul by simp
    also have "\<dots> \<le> level_of (fst (bfs adjacency ?s)) u"
      using ok' by (rule bfs_mono)
    finally have b: "l \<le> level_of (fst (bfs adjacency ?s)) u" using ul by simp
    from a b show ?thesis by simp
  next
    case False
    with "2.prems" have "(u, l) \<in> set (bfs_dequeued adjacency ?s)" by auto
    from "2.IH" [OF ok' this "2.prems"(3)] show ?thesis by simp
  qed
qed

lemma add_root_ok: "levels_ok st \<Longrightarrow> levels_ok (add_root r st)"
  by (cases st) (auto simp: levels_ok_def add_root_def update_conv')

lemma fold_add_root_ok: "levels_ok st \<Longrightarrow> levels_ok (fold add_root rs st)"
  by (induction rs arbitrary: st) (simp_all add: add_root_ok)

lemma init_bfs_ok: "levels_ok (init_bfs rs)"
  unfolding init_bfs_def by (rule fold_add_root_ok) (simp add: levels_ok_def)


lemma add_node_keys: "dom (map_of (fst (add_node n g))) = insert (node_id n) (dom (map_of (fst g)))"
  by (cases g) (simp add: add_node_def update_conv')

lemma init_graph_fold_keys:
  "dom (map_of (fst (fold add_node nodes g))) = dom (map_of (fst g)) \<union> node_id ` set nodes"
  by (induction nodes arbitrary: g) (auto simp: add_node_keys)

lemma init_graph_keys: "dom (map_of (fst (init_graph nodes))) = node_id ` set nodes"
  unfolding init_graph_def by (simp add: init_graph_fold_keys)

lemma build_edges_total:
  "edge_source ` set edges \<subseteq> dom (map_of adjacency) \<Longrightarrow>
     \<exists>g. build_edges edges (adjacency, inDegree) = Inr g"
proof (induction edges arbitrary: adjacency inDegree)
  case Nil
  then show ?case by simp
next
  case (Cons e es)
  then obtain ts where ts: "map_of adjacency (edge_source e) = Some ts" by auto
  have "edge_source ` set es \<subseteq> dom (map_of (AList.update (edge_source e) (ts @ [edge_target e]) adjacency))"
    using Cons.prems by (auto simp: update_conv')
  from Cons.IH [OF this] show ?case using ts by simp
qed

lemma neighbors_update:
  "set (neighbors adjacency k) \<subseteq> set (neighbors (AList.update s (neighbors adjacency s @ [t]) adjacency) k)"
  by (auto simp: neighbors_def update_conv' split: option.splits)

lemma build_edges_neighbors_mono:
  "build_edges edges (adjacency, inDegree) = Inr (adjacency', inDegree') \<Longrightarrow>
     set (neighbors adjacency k) \<subseteq> set (neighbors adjacency' k)"
proof (induction edges arbitrary: adjacency inDegree)
  case Nil
  then show ?case by simp
next
  case (Cons e es)
  then obtain ts where ts: "map_of adjacency (edge_source e) = Some ts"
    by (auto split: option.splits)
  let ?a = "AList.update (edge_source e) (ts @ [edge_target e]) adjacency"
  from Cons.prems ts obtain i where
    "build_edges es (?a, i) = Inr (adjacency', inDegree')" by simp
  from Cons.IH [OF this] have "set (neighbors ?a k) \<subseteq> set (neighbors adjacency' k)" .
  moreover have "set (neighbors adjacency k) \<subseteq> set (neighbors ?a k)"
    using ts by (auto simp: neighbors_def update_conv' split: option.splits)
  ultimately show ?case by blast
qed

lemma build_edges_neighbors:
  "build_edges edges (adjacency, inDegree) = Inr (adjacency', inDegree') \<Longrightarrow> e \<in> set edges \<Longrightarrow>
     edge_target e \<in> set (neighbors adjacency' (edge_source e))"
proof (induction edges arbitrary: adjacency inDegree)
  case Nil
  then show ?case by simp
next
  case (Cons d es)
  then obtain ts where ts: "map_of adjacency (edge_source d) = Some ts"
    by (auto split: option.splits)
  let ?a = "AList.update (edge_source d) (ts @ [edge_target d]) adjacency"
  from Cons.prems ts obtain i where
    b: "build_edges es (?a, i) = Inr (adjacency', inDegree')" by simp
  show ?case
  proof (cases "e \<in> set es")
    case True
    from Cons.IH [OF b True] show ?thesis .
  next
    case False
    with Cons.prems have "e = d" by simp
    then have "edge_target e \<in> set (neighbors ?a (edge_source e))"
      by (simp add: neighbors_def update_conv')
    with build_edges_neighbors_mono [OF b] show ?thesis by blast
  qed
qed

lemma find_roots_total: "nodes \<noteq> [] \<Longrightarrow> \<exists>rs. find_roots nodes inDegree = Inr rs"
  by (cases nodes) (auto simp: find_roots_def Let_def)

lemma hierarchical_levels_total:
  assumes "nodes \<noteq> []" and "edge_source ` set edges \<subseteq> node_id ` set nodes"
  shows "\<exists>levels. hierarchical_levels nodes edges = Inr levels \<and> (\<forall>k. 0 \<le> level_of levels k)"
proof -
  obtain a0 i0 where g0: "init_graph nodes = (a0, i0)" by (cases "init_graph nodes")
  have "dom (map_of a0) = node_id ` set nodes"
    using init_graph_keys [of nodes] g0 by simp
  with assms(2) have "edge_source ` set edges \<subseteq> dom (map_of a0)" by simp
  from build_edges_total [OF this] obtain adjacency inDegree
    where b: "build_edges edges (a0, i0) = Inr (adjacency, inDegree)" by (metis surj_pair)
  from find_roots_total [OF assms(1)] obtain rs where r: "find_roots nodes inDegree = Inr rs"
    by blast
  let ?s = "bfs adjacency (init_bfs (map node_id rs))"
  have ok: "levels_ok ?s" by (intro bfs_ok init_bfs_ok)
  have "0 \<le> level_of (fst ?s) k" for k
    using ok level_of_nonneg [of "fst ?s" "fst (snd ?s)" "snd (snd ?s)" k] by simp
  then show ?thesis
    by (simp add: hierarchical_levels_def g0 b r)
qed


lemma fold_visit_queued:
  "fold (visit c) ns (l, v, q) = (l', v', q') \<Longrightarrow> v' - set q' \<subseteq> v - set q"
proof (induction ns arbitrary: l v q)
  case Nil
  then show ?case by simp
next
  case (Cons n ns)
  obtain l1 v1 q1 where s1: "visit c n (l, v, q) = (l1, v1, q1)"
    by (cases "visit c n (l, v, q)") auto
  from Cons.prems s1 have "fold (visit c) ns (l1, v1, q1) = (l', v', q')" by simp
  from Cons.IH [OF this] have ih: "v' - set q' \<subseteq> v1 - set q1" .
  from s1 have "v1 - set q1 \<subseteq> v - set q"
    by (auto simp: visit_def split: if_splits)
  with ih show ?case by blast
qed

lemma bfs_visited_dequeued:
  "fst (snd (bfs adjacency st)) \<subseteq>
     (fst (snd st) - set (snd (snd st))) \<union> fst ` set (bfs_dequeued adjacency st)"
proof (induction adjacency st rule: bfs.induct)
  case (1 adjacency levels visited)
  then show ?case by simp
next
  case (2 adjacency levels visited currentId queue)
  let ?c = "level_of levels currentId"
  obtain l' v' q' where f: "fold (visit ?c) (neighbors adjacency currentId) (levels, visited, queue)
      = (l', v', q')"
    by (cases "fold (visit ?c) (neighbors adjacency currentId) (levels, visited, queue)") auto
  from fold_visit_queued [OF f] have "v' - set q' \<subseteq> visited - set queue" .
  then have "v' - set q' \<subseteq> (visited - set (currentId # queue)) \<union> {currentId}" by auto
  moreover have "fst (snd (bfs adjacency (l', v', q')))
      \<subseteq> (v' - set q') \<union> fst ` set (bfs_dequeued adjacency (l', v', q'))"
    using "2.IH" unfolding f by simp
  ultimately show ?case by (auto simp: f)
qed

lemma bfs_dequeued_nonneg:
  "levels_ok st \<Longrightarrow> (u, l) \<in> set (bfs_dequeued adjacency st) \<Longrightarrow> 0 \<le> l"
proof (induction adjacency st rule: bfs_dequeued.induct)
  case (1 adjacency levels visited)
  then show ?case by simp
next
  case (2 adjacency levels visited currentId queue)
  have ok: "levels_ok (levels, visited, queue)"
    using "2.prems" by (simp add: levels_ok_def)
  then have c: "0 \<le> level_of levels currentId" by (rule level_of_nonneg)
  show ?case
  proof (cases "(u, l) = (currentId, level_of levels currentId)")
    case True
    with c show ?thesis by simp
  next
    case False
    with "2.prems" "2.IH" ok c show ?thesis by (auto simp: fold_visit_ok)
  qed
qed

lemma add_root_apply: "add_root r (l, v, q) = (AList.update r 0 l, insert r v, q @ [r])"
  by (simp add: add_root_def)

lemma fold_add_root_visited:
  "fold add_root rs (l, v, q) = (l', v', q') \<Longrightarrow> v \<subseteq> set q \<Longrightarrow> v' \<subseteq> set q'"
proof (induction rs arbitrary: l v q)
  case Nil
  then show ?case by simp
next
  case (Cons r rs)
  have "fold add_root rs (AList.update r 0 l, insert r v, q @ [r]) = (l', v', q')"
    using Cons.prems(1) by (simp add: add_root_apply)
  moreover have "insert r v \<subseteq> set (q @ [r])" using Cons.prems(2) by auto
  ultimately show ?case by (rule Cons.IH)
qed

lemma init_bfs_visited: "fst (snd (init_bfs rs)) \<subseteq> set (snd (snd (init_bfs rs)))"
proof -
  obtain l' v' q' where f: "fold add_root rs ([], {}, []) = (l', v', q')"
    by (cases "fold add_root rs ([], {}, [])") auto
  from fold_add_root_visited [OF f] show ?thesis by (simp add: init_bfs_def f)
qed

lemma bfs_leveled_dequeued:
  assumes "map_of (fst (bfs adjacency (init_bfs rs))) k = Some l"
  shows "k \<in> fst ` set (bfs_dequeued adjacency (init_bfs rs))"
proof -
  let ?s = "bfs adjacency (init_bfs rs)"
  have "levels_ok ?s" by (intro bfs_ok init_bfs_ok)
  then have "dom (map_of (fst ?s)) \<subseteq> fst (snd ?s)"
    by (cases ?s) (simp add: levels_ok_def)
  with assms have "k \<in> fst (snd ?s)" by auto
  with bfs_visited_dequeued [of adjacency "init_bfs rs"] init_bfs_visited [of rs]
  show ?thesis by auto
qed

section \<open>Radial layout: levels\<close>

text \<open>The equations that evaluate the radial levels of a concrete graph.\<close>

lemmas radial_eval = radial_levels_def choose_center_def is_blue_def style_background_def
  count_connections_def count_edge_def first_id_def optional_keys_def radial_visit_def
  init_graph_def add_node_def neighbors_def level_of_def new_node_def

lemma radial_visit_ok: "radial_ok st \<Longrightarrow> 0 \<le> c \<Longrightarrow> radial_ok (radial_visit c n st)"
  by (cases st) (auto simp: radial_ok_def radial_visit_def update_conv' split: if_splits)

lemma fold_radial_visit_ok: "radial_ok st \<Longrightarrow> 0 \<le> c \<Longrightarrow> radial_ok (fold (radial_visit c) ns st)"
  by (induction ns arbitrary: st) (auto simp: radial_visit_ok)

lemma radial_bfs_ok: "radial_ok st \<Longrightarrow> radial_ok (radial_bfs adjacency st)"
proof (induction adjacency st rule: radial_bfs.induct)
  case (1 adjacency levels visited)
  then show ?case by simp
next
  case (2 adjacency levels visited id' level queue)
  from "2.prems" have c: "0 \<le> level" and ok: "radial_ok (levels, visited, queue)"
    by (auto simp: radial_ok_def)
  from ok c have "radial_ok (fold (radial_visit level) (neighbors adjacency id') (levels, visited, queue))"
    by (rule fold_radial_visit_ok)
  with "2.IH" show ?case by simp
qed

lemma radial_levels_total:
  assumes "edge_source ` set edges \<subseteq> node_id ` set nodes"
  shows "\<exists>levels. radial_levels nodes edges centerNodeId = Inr levels \<and> (\<forall>k. 0 \<le> level_of levels k)"
proof -
  obtain a0 i0 where g0: "init_graph nodes = (a0, i0)" by (cases "init_graph nodes")
  have "dom (map_of a0) = node_id ` set nodes"
    using init_graph_keys [of nodes] g0 by simp
  with assms have "edge_source ` set edges \<subseteq> dom (map_of a0)" by simp
  from build_edges_total [OF this] obtain adjacency inDegree
    where b: "build_edges edges (a0, i0) = Inr (adjacency, inDegree)" by (metis surj_pair)
  let ?c = "choose_center nodes edges centerNodeId"
  let ?s = "radial_bfs (optional_keys adjacency) ([(?c, 0)], {?c}, [(?c, 0)])"
  have "radial_ok ([(?c, 0)], {?c}, [(?c, 0)])" by (simp add: radial_ok_def)
  then have ok: "radial_ok ?s" by (rule radial_bfs_ok)
  have "0 \<le> level_of (fst ?s) k" for k
    using ok by (cases ?s) (auto simp: radial_ok_def level_of_def split: option.splits)
  then show ?thesis
    by (simp add: radial_levels_def g0 b Let_def)
qed

section \<open>Radial layout: angles\<close>
















lemmas radial_layout_eval = radialLayout_def radial_angles_def max_level_def radial_place_def
  level_radius_def level_group_def radial_level_def calculateMinSpacing_def num_or_def
  DEFAULT_SPACING_def

section \<open>Layout strategies: random draws and unchanged fields\<close>

lemma force_step_single:
  "force_step r ([] :: 'e edge_scheme list) [(k, s)]
     = [(k, if sim_fixed s then s\<lparr>sim_vx := 0, sim_vy := 0, sim_x := 400, sim_y := 400\<rparr>
            else s\<lparr>sim_vx := 0, sim_vy := 0,
              sim_x := max 50 (min 750 (sim_x s)), sim_y := max 50 (min 550 (sim_y s))\<rparr>)]"
  by (simp add: force_step_def apply_forces_def reset_forces_def pairs_def)

lemma force_iter_single:
  assumes "\<not> sim_fixed s" "50 \<le> sim_x s" "sim_x s \<le> 750" "50 \<le> sim_y s" "sim_y s \<le> 550"
    "sim_vx s = 0" "sim_vy s = 0"
  shows "(force_step r ([] :: 'e edge_scheme list) ^^ n) [(k, s)] = [(k, s)]"
proof (induction n)
  case 0
  then show ?case by simp
next
  case (Suc n)
  have "force_step r ([] :: 'e edge_scheme list) [(k, s)] = [(k, s)]"
    using assms by (simp add: force_step_single)
  with Suc show ?case by simp
qed

lemma force_single_origin:
  assumes "50 \<le> r 0 * 800" "r 0 * 800 \<le> 750" "50 \<le> r 1 * 600" "r 1 * 600 \<le> 550"
  shows "forceDirectedLayout r [new_node ''A'' ''A'' None] ([] :: edge list) n DEFAULT_SPACING
    = [(new_node ''A'' ''A'' None)\<lparr>node_x := Some (r 0 * 800), node_y := Some (r 1 * 600),
          node_vx := Some 0, node_vy := Some 0, node_fixed := Some False,
          position := Some \<lparr>xy_x = r 0 * 800, xy_y = r 1 * 600\<rparr>\<rparr>]"
proof -
  let ?s = "\<lparr>sim_node = new_node ''A'' ''A'' None, sim_x = r 0 * 800, sim_y = r 1 * 600,
             sim_vx = 0, sim_vy = 0, sim_fixed = False\<rparr>"
  have b: "find is_blue [new_node ''A'' ''A'' None] = None"
    by (simp add: is_blue_def style_background_def new_node_def)
  have i: "fst (fold (init_sim r None) [new_node ''A'' ''A'' None] ([], 0)) = [(''A'', ?s)]"
    by (simp add: init_sim_def coord_def new_node_def)
  have it: "(force_step k ([] :: edge list) ^^ n) [(''A'', ?s)] = [(''A'', ?s)]" for k
    using assms by (intro force_iter_single) simp_all
  show ?thesis
    unfolding forceDirectedLayout_def Let_def b i it by (simp add: sim_result_def)
qed

lemma init_sim_no_draw:
  "no_draw b n \<Longrightarrow> init_sim r1 b n st = init_sim r2 b n st"
  by (cases st) (auto simp: no_draw_def init_sim_def coord_def split: option.splits)

lemma fold_init_sim_no_draw:
  "list_all (no_draw b) ns \<Longrightarrow> fold (init_sim r1 b) ns st = fold (init_sim r2 b) ns st"
proof (induction ns arbitrary: st)
  case Nil
  then show ?case by simp
next
  case (Cons n ns)
  from Cons.prems have n: "no_draw b n" and ns: "list_all (no_draw b) ns" by simp_all
  have "fold (init_sim r1 b) (n # ns) st = fold (init_sim r1 b) ns (init_sim r1 b n st)" by simp
  also have "\<dots> = fold (init_sim r2 b) ns (init_sim r1 b n st)" using ns by (rule Cons.IH)
  also have "init_sim r1 b n st = init_sim r2 b n st" using n by (rule init_sim_no_draw)
  finally show ?case by simp
qed

lemma applyLayout_force:
  "applyLayout rand layoutName nodes edges sp =
     (let layout = (case layoutName of
                      None \<Rightarrow> ''circular''
                    | Some l \<Rightarrow> if toLowerCase l = [] then ''circular'' else toLowerCase l)
      in if layout = ''force'' \<or> layout = ''fdp'' \<or> layout = ''neato''
         then Inr (forceDirectedLayout rand nodes edges 50 sp)
         else applyLayout (\<lambda>_. 0) layoutName nodes edges sp)"
  by (simp add: applyLayout_def Let_def)

lemma only_position_map:
  assumes "\<And>n. only_position_changed n (f n)"
  shows "list_all2 only_position_changed nodes (map f nodes)"
  using assms by (simp add: list_all2_conv_all_nth)

lemma circularLayout_frame:
  "list_all2 only_position_changed nodes (circularLayout nodes centerX centerY sp)"
  unfolding circularLayout_def Let_def
  by (rule only_position_map) (simp add: only_position_changed_def)

lemma gridLayout_frame:
  "list_all2 only_position_changed nodes (gridLayout nodes columns sp)"
  unfolding gridLayout_def Let_def
  by (simp add: list_all2_conv_all_nth only_position_changed_def)

lemma radialLayout_frame:
  "radialLayout nodes edges centerNodeId sp = Inr out \<Longrightarrow> list_all2 only_position_changed nodes out"
  by (auto simp: radialLayout_def Let_def radial_place_def only_position_changed_def
      list_all2_conv_all_nth split: sum.splits)

lemma hierarchicalLayout_frame:
  "hierarchicalLayout nodes edges direction sp = Inr out \<Longrightarrow> list_all2 only_position_changed nodes out"
  by (auto simp: hierarchicalLayout_def Let_def only_position_changed_def
      list_all2_conv_all_nth split: sum.splits option.splits)

lemma update_new_key: "k \<notin> fst ` set al \<Longrightarrow> AList.update k v al = al @ [(k, v)]"
  by (induction al) auto

lemma init_sim_new:
  assumes "node_id n \<notin> fst ` set m"
  shows "\<exists>s c'. init_sim r b n (m, c) = (m @ [(node_id n, s)], c') \<and> sim_node s = n"
  using assms by (auto simp: init_sim_def update_new_key split: prod.splits)

lemma fold_init_sim_nodes:
  assumes "distinct (map node_id ns)" and "node_id ` set ns \<inter> fst ` set m = {}"
  shows "map (\<lambda>ks. sim_node (snd ks)) (fst (fold (init_sim r b) ns (m, c)))
         = map (\<lambda>ks. sim_node (snd ks)) m @ ns"
  using assms
proof (induction ns arbitrary: m c)
  case Nil
  then show ?case by simp
next
  case (Cons n ns)
  from Cons.prems have "node_id n \<notin> fst ` set m" by auto
  from init_sim_new [OF this] obtain s c' where
    i: "init_sim r b n (m, c) = (m @ [(node_id n, s)], c')" and s: "sim_node s = n" by blast
  have d: "distinct (map node_id ns)" using Cons.prems by simp
  have "node_id ` set ns \<inter> fst ` set (m @ [(node_id n, s)]) = {}"
    using Cons.prems by auto
  from Cons.IH [OF d this, of c'] show ?case by (simp add: i s)
qed

lemma change_at_nodes:
  assumes "\<And>s. sim_node (f s) = sim_node s"
  shows "map (\<lambda>ks. sim_node (snd ks)) (change_at i f m) = map (\<lambda>ks. sim_node (snd ks)) m"
proof (cases "i < length m")
  case True
  have "map (\<lambda>ks. sim_node (snd ks)) (change_at i f m)
      = (map (\<lambda>ks. sim_node (snd ks)) m)[i := sim_node (f (snd (m ! i)))]"
    by (simp add: change_at_def map_update)
  also have "\<dots> = (map (\<lambda>ks. sim_node (snd ks)) m)[i := (map (\<lambda>ks. sim_node (snd ks)) m) ! i]"
    using True by (simp add: assms)
  finally show ?thesis by (simp only: list_update_id)
next
  case False
  then have "m[i := (fst (m ! i), f (snd (m ! i)))] = m" by (intro list_update_beyond) simp
  then show ?thesis by (simp add: change_at_def)
qed

lemma repel_nodes:
  "map (\<lambda>ks. sim_node (snd ks)) (repel r ij m) = map (\<lambda>ks. sim_node (snd ks)) m"
  by (simp add: repel_def Let_def change_at_nodes)

lemma attract_nodes:
  "map (\<lambda>ks. sim_node (snd ks)) (attract e m) = map (\<lambda>ks. sim_node (snd ks)) m"
  by (simp add: attract_def Let_def change_at_nodes split: option.splits)

lemma fold_repel_nodes:
  "map (\<lambda>ks. sim_node (snd ks)) (fold (repel r) ps m) = map (\<lambda>ks. sim_node (snd ks)) m"
  by (induction ps arbitrary: m) (simp_all add: repel_nodes)

lemma fold_attract_nodes:
  "map (\<lambda>ks. sim_node (snd ks)) (fold attract es m) = map (\<lambda>ks. sim_node (snd ks)) m"
  by (induction es arbitrary: m) (simp_all add: attract_nodes)

lemma reset_forces_nodes:
  "map (\<lambda>ks. sim_node (snd ks)) (reset_forces m) = map (\<lambda>ks. sim_node (snd ks)) m"
  by (auto simp: reset_forces_def)

lemma apply_forces_nodes:
  "map (\<lambda>ks. sim_node (snd ks)) (apply_forces m) = map (\<lambda>ks. sim_node (snd ks)) m"
  by (auto simp: apply_forces_def)

lemma force_step_nodes:
  "map (\<lambda>ks. sim_node (snd ks)) (force_step r es m) = map (\<lambda>ks. sim_node (snd ks)) m"
  by (simp add: force_step_def apply_forces_nodes fold_attract_nodes fold_repel_nodes
      reset_forces_nodes)

lemma force_iter_nodes:
  "map (\<lambda>ks. sim_node (snd ks)) ((force_step r es ^^ n) m) = map (\<lambda>ks. sim_node (snd ks)) m"
  by (induction n) (simp_all add: force_step_nodes)

lemma sim_result_frame: "position_and_working_fields_changed (sim_node s) (sim_result s)"
  by (simp add: position_and_working_fields_changed_def sim_result_def)

lemma forceDirectedLayout_frame:
  assumes "distinct (map node_id nodes)"
  shows "list_all2 position_and_working_fields_changed nodes
           (forceDirectedLayout rand nodes edges iterations sp)"
proof -
  let ?b = "find is_blue nodes"
  let ?r = "calculateMinSpacing nodes (nodeSpacing sp) * forceRepulsion sp
            * (calculateMinSpacing nodes (nodeSpacing sp) * forceRepulsion sp)"
  let ?m = "(force_step ?r edges ^^ iterations) (fst (fold (init_sim rand ?b) nodes ([], 0)))"
  have "map (\<lambda>ks. sim_node (snd ks)) ?m
      = map (\<lambda>ks. sim_node (snd ks)) (fst (fold (init_sim rand ?b) nodes ([], 0)))"
    by (rule force_iter_nodes)
  also have "\<dots> = nodes"
    using fold_init_sim_nodes [OF assms, of "[]" rand ?b 0] by simp
  finally have n: "map (\<lambda>ks. sim_node (snd ks)) ?m = nodes" .
  have o: "forceDirectedLayout rand nodes edges iterations sp = map (\<lambda>ks. sim_result (snd ks)) ?m"
    by (simp add: forceDirectedLayout_def Let_def case_prod_unfold)
  have "list_all2 position_and_working_fields_changed (map (\<lambda>ks. sim_node (snd ks)) ?m)
          (map (\<lambda>ks. sim_result (snd ks)) ?m)"
    by (simp add: list_all2_conv_all_nth sim_result_frame)
  then show ?thesis unfolding o n .
qed

lemma hierarchicalLayout_total:
  assumes "nodes \<noteq> []" and "edge_source ` set edges \<subseteq> node_id ` set nodes"
  shows "\<exists>out. hierarchicalLayout nodes edges direction sp = Inr out"
proof -
  obtain a0 i0 where g0: "init_graph nodes = (a0, i0)" by (cases "init_graph nodes")
  have "dom (map_of a0) = node_id ` set nodes"
    using init_graph_keys [of nodes] g0 by simp
  with assms(2) have "edge_source ` set edges \<subseteq> dom (map_of a0)" by simp
  from build_edges_total [OF this] obtain adjacency inDegree
    where b: "build_edges edges (a0, i0) = Inr (adjacency, inDegree)" by (metis surj_pair)
  from find_roots_total [OF assms(1)] obtain rs where r: "find_roots nodes inDegree = Inr rs"
    by blast
  show ?thesis by (simp add: hierarchicalLayout_def g0 b r Let_def)
qed

lemma radialLayout_total:
  assumes "edge_source ` set edges \<subseteq> node_id ` set nodes"
  shows "\<exists>out. radialLayout nodes edges centerNodeId sp = Inr out"
proof -
  from radial_levels_total [OF assms] obtain levels where
    "radial_levels nodes edges centerNodeId = Inr levels" by blast
  then show ?thesis by (simp add: radialLayout_def Let_def)
qed

section \<open>The matcher consumes a prefix\<close>

lemma m_suffix:
  "re_match r k st = Some res \<Longrightarrow> \<exists>st'. k st' = Some res \<and> (\<exists>p. fst st = p @ fst st')"
proof (induction r k st arbitrary: res rule: re_match.induct)
  case (1 c k s cs)
  then show ?case by (cases s) (auto split: if_splits)
next
  case (2 k st)
  then have "k st = Some res \<and> fst st = [] @ fst st" by simp
  then show ?case by blast
next
  case (3 k s cs)
  then show ?case by (cases s) (auto split: if_splits)
next
  case (4 a b k st)
  from "4.prems" have "re_match a (\<lambda>st'. re_match b k st') st = Some res" by simp
  from "4.IH"(2) [OF this] obtain st1 p1 where
    s1: "re_match b k st1 = Some res" "fst st = p1 @ fst st1" by blast
  from "4.IH"(1) [OF s1(1)] obtain st2 p2 where
    s2: "k st2 = Some res" "fst st1 = p2 @ fst st2" by blast
  from s1 s2 have "fst st = (p1 @ p2) @ fst st2" by simp
  then have "\<exists>p. fst st = p @ fst st2" by (rule exI)
  with s2(1) have "k st2 = Some res \<and> (\<exists>p. fst st = p @ fst st2)" by (rule conjI)
  then show ?case by (rule exI)
next
  case (5 a b k st)
  show ?case
  proof (cases "re_match a k st")
    case None
    with "5.prems" have "re_match b k st = Some res" by simp
    from "5.IH"(2) [OF None this] show ?thesis .
  next
    case (Some r)
    with "5.prems" have "re_match a k st = Some res" by simp
    from "5.IH"(1) [OF this] show ?thesis .
  qed
next
  case (6 a k s cs)
  let ?K = "\<lambda>st'. if length (fst st') < length s then re_match (Star a) k st' else None"
  show ?case
  proof (cases "re_match a ?K (s, cs)")
    case None
    with "6.prems" have "k (s, cs) = Some res" by simp
    moreover have "\<exists>p. fst (s, cs) = p @ fst (s, cs)" by (rule exI [of _ "[]"]) simp
    ultimately have "k (s, cs) = Some res \<and> (\<exists>p. fst (s, cs) = p @ fst (s, cs))" by (rule conjI)
    then show ?thesis by (rule exI)
  next
    case (Some r)
    with "6.prems" have e: "re_match a ?K (s, cs) = Some res" by simp
    from "6.IH"(2) [OF e] obtain st1 p1 where
      s1: "?K st1 = Some res" "s = p1 @ fst st1" by auto
    from s1(1) have l: "length (fst st1) < length s" and r: "re_match (Star a) k st1 = Some res"
      by (auto split: if_splits)
    from "6.IH"(1) [OF l r] obtain st2 p2 where
      s2: "k st2 = Some res" "fst st1 = p2 @ fst st2" by blast
    from s1 s2 have "fst (s, cs) = (p1 @ p2) @ fst st2" by simp
    then have "\<exists>p. fst (s, cs) = p @ fst st2" by (rule exI)
    with s2(1) have "k st2 = Some res \<and> (\<exists>p. fst (s, cs) = p @ fst st2)" by (rule conjI)
    then show ?thesis by (rule exI)
  qed
next
  case (7 a k s cs)
  let ?K = "\<lambda>st'. if length (fst st') < length s then re_match (Lazy a) k st' else None"
  show ?case
  proof (cases "k (s, cs)")
    case (Some r)
    with "7.prems" have "k (s, cs) = Some res" by simp
    moreover have "\<exists>p. fst (s, cs) = p @ fst (s, cs)" by (rule exI [of _ "[]"]) simp
    ultimately have "k (s, cs) = Some res \<and> (\<exists>p. fst (s, cs) = p @ fst (s, cs))" by (rule conjI)
    then show ?thesis by (rule exI)
  next
    case None
    with "7.prems" have e: "re_match a ?K (s, cs) = Some res" by simp
    from "7.IH"(2) [OF None e] obtain st1 p1 where
      s1: "?K st1 = Some res" "s = p1 @ fst st1" by auto
    from s1(1) have l: "length (fst st1) < length s" and r: "re_match (Lazy a) k st1 = Some res"
      by (auto split: if_splits)
    from "7.IH"(1) [OF None l r] obtain st2 p2 where
      s2: "k st2 = Some res" "fst st1 = p2 @ fst st2" by blast
    from s1 s2 have "fst (s, cs) = (p1 @ p2) @ fst st2" by simp
    then have "\<exists>p. fst (s, cs) = p @ fst st2" by (rule exI)
    with s2(1) have "k st2 = Some res \<and> (\<exists>p. fst (s, cs) = p @ fst st2)" by (rule conjI)
    then show ?thesis by (rule exI)
  qed
next
  case (8 a k st)
  show ?case
  proof (cases "re_match a k st")
    case None
    with "8.prems" have "k st = Some res" by simp
    moreover have "\<exists>p. fst st = p @ fst st" by (rule exI [of _ "[]"]) simp
    ultimately have "k st = Some res \<and> (\<exists>p. fst st = p @ fst st)" by (rule conjI)
    then show ?thesis by (rule exI)
  next
    case (Some r)
    with "8.prems" have "re_match a k st = Some res" by simp
    from "8.IH" [OF this] show ?thesis .
  qed
next
  case (9 n a k s cs)
  let ?K = "\<lambda>st'. k (fst st', AList.update n (take (length s - length (fst st')) s) (snd st'))"
  from "9.prems" have "re_match a ?K (s, cs) = Some res" by simp
  from "9.IH" [OF this] obtain st1 p1 where s1: "?K st1 = Some res" "s = p1 @ fst st1" by auto
  let ?st = "(fst st1, AList.update n (take (length s - length (fst st1)) s) (snd st1))"
  from s1(2) have "\<exists>p. fst (s, cs) = p @ fst ?st" by simp
  with s1(1) have "k ?st = Some res \<and> (\<exists>p. fst (s, cs) = p @ fst ?st)" by (intro conjI)
  then show ?case by (rule exI)
qed

lemma match_at_suffix: "match_at r s = Some (rest, cs) \<Longrightarrow> \<exists>p. s = p @ rest"
proof -
  assume "match_at r s = Some (rest, cs)"
  then have "re_match r Some (s, []) = Some (rest, cs)" by (simp add: match_at_def)
  from m_suffix [OF this] show ?thesis by auto
qed

lemma match_at_rest_subset: "match_at r s = Some (rest, cs) \<Longrightarrow> set rest \<subseteq> set s"
proof -
  assume "match_at r s = Some (rest, cs)"
  from match_at_suffix [OF this] obtain p where "s = p @ rest" by blast
  then show ?thesis by simp
qed

lemma requires_no_match:
  "requires c r \<Longrightarrow> c \<notin> set (fst st) \<Longrightarrow> re_match r k st = None"
proof (induction r arbitrary: k st)
  case (Sym cl)
  then show ?case by (cases st; cases "fst st") auto
next
  case (Seq a b)
  show ?case
  proof (cases "requires c a")
    case True
    from Seq.IH(1) [OF True Seq.prems(2)] show ?thesis by simp
  next
    case False
    with Seq.prems have b: "requires c b" by simp
    show ?thesis
    proof (rule ccontr)
      assume "re_match (Seq a b) k st \<noteq> None"
      then obtain res where "re_match a (\<lambda>st'. re_match b k st') st = Some res" by auto
      from m_suffix [OF this] obtain st1 p where
        s1: "re_match b k st1 = Some res" "fst st = p @ fst st1" by blast
      from s1(2) Seq.prems(2) have "c \<notin> set (fst st1)" by auto
      from Seq.IH(2) [OF b this] s1(1) show False by simp
    qed
  qed
next
  case (Alt a b)
  then show ?case by simp
next
  case (Group n a)
  obtain s cs where st: "st = (s, cs)" by (cases st)
  from Group.prems have "requires c a" "c \<notin> set (fst (s, cs))" by (simp_all add: st)
  from Group.IH [OF this] show ?case by (simp add: st)
qed simp_all

lemma search_none:
  "requires c r \<Longrightarrow> c \<notin> set s \<Longrightarrow> search r i s = None"
proof (induction s arbitrary: i)
  case Nil
  then show ?case by (simp add: match_at_def requires_no_match)
next
  case (Cons x xs)
  have "match_at r (x # xs) = None"
    unfolding match_at_def using Cons.prems by (intro requires_no_match) simp_all
  with Cons show ?case by simp
qed

lemma exec_all_none:
  "requires c r \<Longrightarrow> c \<notin> set s \<Longrightarrow> exec_all r i s = []"
  by (subst exec_all.simps) (simp add: search_none)

lemma set_replace_all: "set (replace_all r s) \<subseteq> set s"
proof (induction r s rule: replace_all.induct)
  case (1 r)
  then show ?case by simp
next
  case (2 r x xs)
  show ?case
  proof (cases "match_at r (x # xs)")
    case None
    with "2.IH"(1) show ?thesis by auto
  next
    case (Some a)
    obtain rest cs where a: "a = (rest, cs)" by (cases a)
    from match_at_rest_subset [OF Some [unfolded a]] have sub: "set rest \<subseteq> set (x # xs)" .
    show ?thesis
    proof (cases "length rest < length (x # xs)")
      case True
      from "2.IH"(2) [OF Some [unfolded a] refl True] sub show ?thesis
        using Some a True by auto
    next
      case False
      from "2.IH"(3) [OF Some [unfolded a] refl False] show ?thesis
        using Some a False by auto
    qed
  qed
qed

lemma set_trim: "set (trim s) \<subseteq> set s"
proof -
  have "set (dropWhile is_space (rev (dropWhile is_space s))) \<subseteq> set (rev (dropWhile is_space s))"
    by (auto dest: set_dropWhileD)
  also have "\<dots> \<subseteq> set s" by (auto dest: set_dropWhileD)
  finally show ?thesis by (simp add: trim_def)
qed

lemma search_rest_subset:
  "search r i s = Some (j, matched, cs, rest) \<Longrightarrow> set rest \<subseteq> set s"
proof (induction s arbitrary: i)
  case Nil
  then obtain p where "[] = p @ rest"
    by (auto split: option.splits dest: match_at_suffix)
  then show ?case by simp
next
  case (Cons x xs)
  show ?case
  proof (cases "match_at r (x # xs)")
    case None
    with Cons.prems have "search r (Suc i) xs = Some (j, matched, cs, rest)" by simp
    from Cons.IH [OF this] show ?thesis by auto
  next
    case (Some a)
    obtain rest' cs' where a: "a = (rest', cs')" by (cases a)
    with Some Cons.prems have "rest = rest'" by simp
    with match_at_rest_subset [OF Some [unfolded a]] show ?thesis by simp
  qed
qed

lemma set_replace_first: "set (replace_first r rep s) \<subseteq> set s \<union> set rep"
proof (cases "search r 0 s")
  case None
  then show ?thesis by (simp add: replace_first_def)
next
  case (Some a)
  obtain j matched cs rest where a: "a = (j, matched, cs, rest)" by (cases a)
  from search_rest_subset [OF Some [unfolded a]] have "set rest \<subseteq> set s" .
  moreover have "set (take j s) \<subseteq> set s" by (rule set_take_subset)
  ultimately show ?thesis by (auto simp: replace_first_def Some a)
qed

lemma set_fold_replace_all: "set (fold replace_all rs s) \<subseteq> set s"
proof (induction rs arbitrary: s)
  case Nil
  then show ?case by simp
next
  case (Cons r rs)
  have "set (fold replace_all rs (replace_all r s)) \<subseteq> set (replace_all r s)" by (rule Cons.IH)
  also have "\<dots> \<subseteq> set s" by (rule set_replace_all)
  finally show ?case by simp
qed

lemma set_strip_comments: "set (strip_comments s) \<subseteq> set s"
proof -
  have "set (strip_comments s) \<subseteq> set (replace_all block_comment (replace_all line_comment s))"
    unfolding strip_comments_def by (rule set_trim)
  also have "\<dots> \<subseteq> set (replace_all line_comment s)" by (rule set_replace_all)
  also have "\<dots> \<subseteq> set s" by (rule set_replace_all)
  finally show ?thesis .
qed

lemma set_clean: "set (clean s) \<subseteq> insert (CHR ''{'') (set s)"
proof -
  let ?c = "strip_comments s"
  let ?t = "if str_includes ''digraph'' ?c then ''digraph'' else ''graph''"
  have "set (clean s) \<subseteq> set (replace_first (graph_declaration ?t) ''{'' ?c)"
    unfolding clean_def Let_def by (rule set_fold_replace_all)
  also have "\<dots> \<subseteq> set ?c \<union> set ''{''" by (rule set_replace_first)
  also have "\<dots> \<subseteq> insert (CHR ''{'') (set s)" using set_strip_comments [of s] by auto
  finally show ?thesis .
qed

lemma requires_nodeDefPattern: "requires (CHR '';'') nodeDefPattern"
  by (simp add: nodeDefPattern_def lit_def ident_def attr_list_def spaces_def)

lemma requires_edgePattern: "requires (CHR ''-'') (edgePattern d)"
  by (cases d) (simp_all add: edgePattern_def lit_def ident_def attr_list_def spaces_def)

lemma node_defs_none: "CHR '';'' \<notin> set c \<Longrightarrow> node_defs c = []"
  by (simp add: node_defs_def node_def_matches_def exec_all_none [OF requires_nodeDefPattern])

lemma edge_matches_none: "CHR ''-'' \<notin> set c \<Longrightarrow> edge_matches d c = []"
  by (simp add: edge_matches_def exec_all_none [OF requires_edgePattern])

section \<open>Every match of the statement patterns is non-empty\<close>

lemma requires_consumes:
  "requires c r \<Longrightarrow> re_match r k st = Some res \<Longrightarrow>
     \<exists>st' p. k st' = Some res \<and> fst st = p @ fst st' \<and> c \<in> set p"
proof (induction r arbitrary: k st res)
  case (Sym cl)
  obtain s cs where st: "st = (s, cs)" by (cases st)
  from Sym.prems obtain xs where s: "s = c # xs" and k: "k (xs, cs) = Some res"
    by (cases s) (auto simp: st split: if_splits)
  have "k (xs, cs) = Some res \<and> fst st = [c] @ fst (xs, cs) \<and> c \<in> set [c]"
    using k by (simp add: st s)
  then show ?case by blast
next
  case (Seq a b)
  from Seq.prems(2) have e: "re_match a (\<lambda>st'. re_match b k st') st = Some res" by simp
  show ?case
  proof (cases "requires c a")
    case True
    from Seq.IH(1) [OF True e] obtain st1 p1 where
      s1: "re_match b k st1 = Some res" "fst st = p1 @ fst st1" "c \<in> set p1" by blast
    from m_suffix [OF s1(1)] obtain st2 p2 where
      s2: "k st2 = Some res" "fst st1 = p2 @ fst st2" by blast
    have "k st2 = Some res \<and> fst st = (p1 @ p2) @ fst st2 \<and> c \<in> set (p1 @ p2)"
      using s1 s2 by simp
    then show ?thesis by blast
  next
    case False
    with Seq.prems(1) have b: "requires c b" by simp
    from m_suffix [OF e] obtain st1 p1 where
      s1: "re_match b k st1 = Some res" "fst st = p1 @ fst st1" by blast
    from Seq.IH(2) [OF b s1(1)] obtain st2 p2 where
      s2: "k st2 = Some res" "fst st1 = p2 @ fst st2" "c \<in> set p2" by blast
    have "k st2 = Some res \<and> fst st = (p1 @ p2) @ fst st2 \<and> c \<in> set (p1 @ p2)"
      using s1 s2 by simp
    then show ?thesis by blast
  qed
next
  case (Alt a b)
  from Alt.prems(1) have ra: "requires c a" and rb: "requires c b" by simp_all
  show ?case
  proof (cases "re_match a k st")
    case None
    with Alt.prems(2) have "re_match b k st = Some res" by simp
    from Alt.IH(2) [OF rb this] show ?thesis .
  next
    case (Some r)
    with Alt.prems(2) have "re_match a k st = Some res" by simp
    from Alt.IH(1) [OF ra this] show ?thesis .
  qed
next
  case (Group n a)
  obtain s cs where st: "st = (s, cs)" by (cases st)
  let ?K = "\<lambda>st'. k (fst st', AList.update n (take (length s - length (fst st')) s) (snd st'))"
  from Group.prems have ra: "requires c a" and e: "re_match a ?K (s, cs) = Some res"
    by (simp_all add: st)
  from Group.IH [OF ra e] obtain st1 p1 where
    s1: "?K st1 = Some res" "fst (s, cs) = p1 @ fst st1" "c \<in> set p1" by blast
  let ?st = "(fst st1, AList.update n (take (length s - length (fst st1)) s) (snd st1))"
  have "k ?st = Some res \<and> fst st = p1 @ fst ?st \<and> c \<in> set p1"
    using s1 by (simp add: st)
  then show ?case by blast
qed simp_all

lemma requires_match_shorter:
  assumes "requires c r" and "match_at r s = Some (rest, cs)"
  shows "length rest < length s"
proof -
  from assms(2) have "re_match r Some (s, []) = Some (rest, cs)" by (simp add: match_at_def)
  from requires_consumes [OF assms(1) this] obtain p where "s = p @ rest" "c \<in> set p" by auto
  then show ?thesis by (cases p) auto
qed

lemma requires_search_matched:
  "requires c r \<Longrightarrow> search r i s = Some (j, matched, cs, rest) \<Longrightarrow> matched \<noteq> []"
proof (induction s arbitrary: i)
  case Nil
  then have "match_at r [] = Some (rest, cs)" by (auto split: option.splits)
  from requires_match_shorter [OF Nil.prems(1) this] show ?case by simp
next
  case (Cons x xs)
  show ?case
  proof (cases "match_at r (x # xs)")
    case None
    with Cons.prems have "search r (Suc i) xs = Some (j, matched, cs, rest)" by simp
    from Cons.IH [OF Cons.prems(1) this] show ?thesis .
  next
    case (Some a)
    obtain rest' cs' where a: "a = (rest', cs')" by (cases a)
    from requires_match_shorter [OF Cons.prems(1) Some [unfolded a]]
    have "length rest' < length (x # xs)" .
    with Cons.prems(2) Some a show ?thesis by auto
  qed
qed

text \<open>The loop over the matches of a pattern that requires a character never meets the
  empty match.\<close>

lemma exec_all_requires:
  assumes "requires c r"
  shows "exec_all r i s =
     (case search r i s of
        None \<Rightarrow> []
      | Some (j, matched, cs, rest) \<Rightarrow> (j, cs) # exec_all r (j + length matched) rest)"
proof (cases "search r i s")
  case None
  then show ?thesis by (subst exec_all.simps) simp
next
  case (Some a)
  obtain j matched cs rest where a: "a = (j, matched, cs, rest)" by (cases a)
  from requires_search_matched [OF assms Some [unfolded a]] have "matched \<noteq> []" .
  then show ?thesis by (subst exec_all.simps) (simp add: Some a)
qed

lemma requires_attrPattern: "requires (CHR ''='') attrPattern"
  by (simp add: attrPattern_def lit_def)

section \<open>The keys of the node map\<close>

lemma update_add_key: "map fst (AList.update k v al) = add_key k (map fst al)"
  by (simp add: add_key_def update_keys)

lemma set_add_key: "set (add_key k ks) = insert k (set ks)"
  by (auto simp: add_key_def)

lemma set_alist_update: "set (AList.update k v al) \<subseteq> insert (k, v) (set al)"
  by (induction al) auto

lemma keyed_update:
  assumes "keyed nm" and "node_id v = k"
  shows "keyed (AList.update k v nm)"
proof -
  have sub: "set (AList.update k v nm) \<subseteq> insert (k, v) (set nm)"
    by (rule set_alist_update)
  have "node_id (snd kn) = fst kn" if "kn \<in> set (AList.update k v nm)" for kn
  proof -
    from that sub have "kn = (k, v) \<or> kn \<in> set nm" by auto
    then show ?thesis using assms by (auto simp: keyed_def)
  qed
  then show ?thesis by (simp add: keyed_def)
qed

lemma keyed_lookup: "keyed nm \<Longrightarrow> map_of nm k = Some n \<Longrightarrow> node_id n = k"
  by (auto simp: keyed_def dest!: map_of_SomeD)

lemma define_node_keys:
  "keyed nm \<Longrightarrow> map fst (define_node k attrs nm) = add_key k (map fst nm) \<and> keyed (define_node k attrs nm)"
proof (cases "map_of nm k")
  case None
  assume "keyed nm"
  then show ?thesis
    by (simp add: define_node_def None update_add_key keyed_update new_node_def)
next
  case (Some n)
  assume k: "keyed nm"
  from keyed_lookup [OF k Some] have "node_id n = k" .
  then show ?thesis
    using k by (auto simp: define_node_def Some Let_def update_add_key intro!: keyed_update
        split: option.splits)
qed

lemma ensure_node_keys:
  "keyed nm \<Longrightarrow> map fst (ensure_node k nm) = add_key k (map fst nm) \<and> keyed (ensure_node k nm)"
proof (cases "map_of nm k")
  case None
  assume "keyed nm"
  then show ?thesis
    by (simp add: ensure_node_def None update_add_key keyed_update new_node_def)
next
  case (Some n)
  assume k: "keyed nm"
  from Some have "k \<in> fst ` set nm" by (auto dest: map_of_SomeD intro: rev_image_eqI)
  then show ?thesis using k by (simp add: ensure_node_def Some add_key_def)
qed

lemma process_defs_keys:
  "process_defs ds (nm, pr) = Inr (nm', pr') \<Longrightarrow> keyed nm \<Longrightarrow>
   \<forall>p \<in> set pr. fst p \<in> fst ` set nm \<Longrightarrow>
     map fst nm' = fold add_key (map (\<lambda>(i, nodeId, attributes). nodeId) ds) (map fst nm) \<and> keyed nm'"
proof (induction ds arbitrary: nm pr)
  case Nil
  then show ?case by simp
next
  case (Cons d ds)
  obtain i nodeId attributes where d: "d = (i, nodeId, attributes)" by (cases d)
  show ?case
  proof (cases "(nodeId, i) \<in> set pr")
    case True
    with Cons.prems(3) have "nodeId \<in> fst ` set nm" by force
    then have a: "add_key nodeId (map fst nm) = map fst nm" by (simp add: add_key_def)
    from Cons.prems(1) True have "process_defs ds (nm, pr) = Inr (nm', pr')" by (simp add: d)
    from Cons.IH [OF this Cons.prems(2) Cons.prems(3)] show ?thesis by (simp add: d a)
  next
    case False
    show ?thesis
    proof (cases "map_of nm nodeId = None \<or> attributes \<noteq> []")
      case True
      with Cons.prems(1) False obtain nodeAttrs where
        pa: "parseAttributes attributes = Inr nodeAttrs"
        and r: "process_defs ds (define_node nodeId nodeAttrs nm, (nodeId, i) # pr) = Inr (nm', pr')"
        by (auto simp: d split: sum.splits)
      from define_node_keys [OF Cons.prems(2), of nodeId nodeAttrs]
      have k: "map fst (define_node nodeId nodeAttrs nm) = add_key nodeId (map fst nm)"
        and kd: "keyed (define_node nodeId nodeAttrs nm)" by simp_all
      have "set (map fst (define_node nodeId nodeAttrs nm)) = insert nodeId (set (map fst nm))"
        by (simp only: k set_add_key)
      then have sub: "fst ` set nm \<subseteq> fst ` set (define_node nodeId nodeAttrs nm)"
        and new: "nodeId \<in> fst ` set (define_node nodeId nodeAttrs nm)"
        by auto
      have "\<forall>p \<in> set ((nodeId, i) # pr). fst p \<in> fst ` set (define_node nodeId nodeAttrs nm)"
        using Cons.prems(3) sub new by auto
      from Cons.IH [OF r kd this] show ?thesis by (simp add: d k)
    next
      case F2: False
      then obtain n where "map_of nm nodeId = Some n" by auto
      then have "nodeId \<in> fst ` set nm" by (auto dest: map_of_SomeD intro: rev_image_eqI)
      then have a: "add_key nodeId (map fst nm) = map fst nm" by (simp add: add_key_def)
      from Cons.prems(1) False F2 have r: "process_defs ds (nm, (nodeId, i) # pr) = Inr (nm', pr')"
        by (simp add: d)
      have "\<forall>p \<in> set ((nodeId, i) # pr). fst p \<in> fst ` set nm"
        using Cons.prems(3) \<open>nodeId \<in> fst ` set nm\<close> by auto
      from Cons.IH [OF r Cons.prems(2) this] show ?thesis by (simp add: d a)
    qed
  qed
qed

lemma process_edges_keys:
  "process_edges ms (nm, es, n) = Inr (nm', es', n') \<Longrightarrow> keyed nm \<Longrightarrow>
     map fst nm' = fold add_key (concat (map (\<lambda>(source, target, attributes). [source, target]) ms))
                     (map fst nm)
     \<and> keyed nm'"
proof (induction ms arbitrary: nm es n)
  case Nil
  then show ?case by simp
next
  case (Cons e ms)
  obtain source target attributes where e: "e = (source, target, attributes)" by (cases e)
  from Cons.prems(1) obtain edgeAttrs where
    r: "process_edges ms (ensure_node target (ensure_node source nm),
          es @ [make_edge source target n edgeAttrs], Suc n) = Inr (nm', es', n')"
    by (auto simp: e split: sum.splits)
  from ensure_node_keys [OF Cons.prems(2), of source]
  have k1: "map fst (ensure_node source nm) = add_key source (map fst nm)"
    and kd1: "keyed (ensure_node source nm)" by simp_all
  from ensure_node_keys [OF kd1, of target]
  have k2: "map fst (ensure_node target (ensure_node source nm))
        = add_key target (add_key source (map fst nm))"
    and kd2: "keyed (ensure_node target (ensure_node source nm))" by (simp_all add: k1)
  from Cons.IH [OF r kd2] show ?case by (simp add: e k2)
qed

lemma fold_add_key: "distinct ks \<Longrightarrow> fold add_key xs ks = first_occurrences (ks @ xs)"
proof (induction xs rule: rev_induct)
  case Nil
  then show ?case by (simp add: first_occurrences_def distinct_remdups_id)
next
  case (snoc x xs)
  have s: "set (first_occurrences (ks @ xs)) = set (ks @ xs)"
    by (auto simp: first_occurrences_def)
  have "fold add_key (xs @ [x]) ks = add_key x (first_occurrences (ks @ xs))"
    using snoc by simp
  also have "\<dots> = first_occurrences (ks @ xs @ [x])"
    using s by (auto simp: add_key_def first_occurrences_def)
  finally show ?case .
qed

lemma fold_add_key_empty: "fold add_key xs [] = first_occurrences xs"
  using fold_add_key [of "[]" xs] by simp

lemma keyed_ids: "keyed nm \<Longrightarrow> map node_id (map snd nm) = map fst nm"
  by (induction nm) (auto simp: keyed_def)

lemma parse_node_ids:
  assumes "parseDotToReactFlow s = Inr (nodes, edges)"
  shows "map node_id nodes =
           first_occurrences
             (map (\<lambda>(i, nodeId, attributes). nodeId) (node_defs (clean s)) @
              concat (map (\<lambda>(source, target, attributes). [source, target])
                        (edge_matches (str_includes ''digraph'' (strip_comments s)) (clean s))))"
proof -
  let ?ds = "node_defs (clean s)"
  let ?ms = "edge_matches (str_includes ''digraph'' (strip_comments s)) (clean s)"
  from assms obtain nm pr nm' es n where
    d: "process_defs ?ds ([], []) = Inr (nm, pr)"
    and e: "process_edges ?ms (nm, [], 0) = Inr (nm', es, n)"
    and o: "nodes = map snd nm'"
    by (auto simp: parseDotToReactFlow_def Let_def split: sum.splits)
  have k0: "keyed []" by (simp add: keyed_def)
  from process_defs_keys [OF d k0]
  have k1: "map fst nm = fold add_key (map (\<lambda>(i, nodeId, attributes). nodeId) ?ds) []"
    and kd1: "keyed nm" by simp_all
  from process_edges_keys [OF e kd1]
  have k2: "map fst nm' = fold add_key
              (concat (map (\<lambda>(source, target, attributes). [source, target]) ?ms)) (map fst nm)"
    and kd2: "keyed nm'" by simp_all
  have "map node_id nodes = map fst nm'" unfolding o using kd2 by (rule keyed_ids)
  also have "\<dots> = fold add_key (map (\<lambda>(i, nodeId, attributes). nodeId) ?ds @
              concat (map (\<lambda>(source, target, attributes). [source, target]) ?ms)) []"
    by (simp add: k2 k1)
  also have "\<dots> = first_occurrences (map (\<lambda>(i, nodeId, attributes). nodeId) ?ds @
              concat (map (\<lambda>(source, target, attributes). [source, target]) ?ms))"
    by (rule fold_add_key_empty)
  finally show ?thesis .
qed

section \<open>The matches of a pattern\<close>

text \<open>Every result of the matcher is a match of the pattern.\<close>

lemma re_match_steps:
  "re_match r k st = Some res \<Longrightarrow> \<exists>st'. steps r st st' \<and> k st' = Some res"
proof (induction r k st arbitrary: res rule: re_match.induct)
  case (1 c k s cs)
  then show ?case by (cases s) (auto split: if_splits intro: steps.sym)
next
  case (2 k st)
  then have "steps Eps st st \<and> k st = Some res" by (simp add: steps.eps)
  then show ?case by (rule exI)
next
  case (3 k s cs)
  from "3.prems" have a: "s = [] \<or> is_line_end (hd s)" and b: "k (s, cs) = Some res"
    by (cases s; simp split: if_splits)+
  from steps.eol [OF a, of cs] b have "steps Eol (s, cs) (s, cs) \<and> k (s, cs) = Some res" by simp
  then show ?case by (rule exI)
next
  case (4 a b k st)
  from "4.prems" have "re_match a (\<lambda>st'. re_match b k st') st = Some res" by simp
  from "4.IH"(2) [OF this] obtain st1 where
    s1: "steps a st st1" "re_match b k st1 = Some res" by blast
  from "4.IH"(1) [OF s1(2)] obtain st2 where
    s2: "steps b st1 st2" "k st2 = Some res" by blast
  from s1(1) s2 show ?case by (blast intro: steps.seq)
next
  case (5 a b k st)
  show ?case
  proof (cases "re_match a k st")
    case None
    with "5.prems" have "re_match b k st = Some res" by simp
    from "5.IH"(2) [OF None this] show ?thesis by (blast intro: steps.alt2)
  next
    case (Some r)
    with "5.prems" have "re_match a k st = Some res" by simp
    from "5.IH"(1) [OF this] show ?thesis by (blast intro: steps.alt1)
  qed
next
  case (6 a k s cs)
  let ?K = "\<lambda>st'. if length (fst st') < length s then re_match (Star a) k st' else None"
  show ?case
  proof (cases "re_match a ?K (s, cs)")
    case None
    with "6.prems" have "k (s, cs) = Some res" by simp
    then show ?thesis by (blast intro: steps.star0)
  next
    case (Some r)
    with "6.prems" have e: "re_match a ?K (s, cs) = Some res" by simp
    from "6.IH"(2) [OF e] obtain st1 where
      s1: "steps a (s, cs) st1" "?K st1 = Some res" by auto
    from s1(2) have l: "length (fst st1) < length s" and r: "re_match (Star a) k st1 = Some res"
      by (auto split: if_splits)
    from "6.IH"(1) [OF l r] obtain st2 where
      s2: "steps (Star a) st1 st2" "k st2 = Some res" by blast
    from l have "length (fst st1) < length (fst (s, cs))" by simp
    from steps.star1 [OF s1(1) this s2(1)] s2(2) show ?thesis by blast
  qed
next
  case (7 a k s cs)
  let ?K = "\<lambda>st'. if length (fst st') < length s then re_match (Lazy a) k st' else None"
  show ?case
  proof (cases "k (s, cs)")
    case (Some r)
    with "7.prems" have "k (s, cs) = Some res" by simp
    then show ?thesis by (blast intro: steps.lazy0)
  next
    case None
    with "7.prems" have e: "re_match a ?K (s, cs) = Some res" by simp
    from "7.IH"(2) [OF None e] obtain st1 where
      s1: "steps a (s, cs) st1" "?K st1 = Some res" by auto
    from s1(2) have l: "length (fst st1) < length s" and r: "re_match (Lazy a) k st1 = Some res"
      by (auto split: if_splits)
    from "7.IH"(1) [OF None l r] obtain st2 where
      s2: "steps (Lazy a) st1 st2" "k st2 = Some res" by blast
    from l have "length (fst st1) < length (fst (s, cs))" by simp
    from steps.lazy1 [OF s1(1) this s2(1)] s2(2) show ?thesis by blast
  qed
next
  case (8 a k st)
  show ?case
  proof (cases "re_match a k st")
    case None
    with "8.prems" have "k st = Some res" by simp
    then show ?thesis by (blast intro: steps.opt0)
  next
    case (Some r)
    with "8.prems" have "re_match a k st = Some res" by simp
    from "8.IH" [OF this] show ?thesis by (blast intro: steps.opt1)
  qed
next
  case (9 n a k s cs)
  let ?K = "\<lambda>st'. k (fst st', AList.update n (take (length s - length (fst st')) s) (snd st'))"
  from "9.prems" have "re_match a ?K (s, cs) = Some res" by simp
  from "9.IH" [OF this] obtain st1 where s1: "steps a (s, cs) st1" "?K st1 = Some res" by auto
  obtain s' cs' where st1: "st1 = (s', cs')" by (cases st1)
  from steps.group [OF s1(1) [unfolded st1], of n] s1(2) show ?case
    by (auto simp: st1)
qed

text \<open>Conversely, a match whose continuation succeeds makes the matcher succeed.\<close>

lemma steps_re_match:
  "steps r st st' \<Longrightarrow> k st' \<noteq> None \<Longrightarrow> re_match r k st \<noteq> None"
proof (induction arbitrary: k rule: steps.induct)
  case (sym c x xs cs)
  then show ?case by simp
next
  case (eps st)
  then show ?case by simp
next
  case (eol s cs)
  then show ?case by (cases s) auto
next
  case (seq a st st1 b st2)
  from seq.IH(2) [of k, OF seq.prems] have "re_match b k st1 \<noteq> None" .
  from seq.IH(1) [of "\<lambda>st'. re_match b k st'", OF this] show ?case by simp
next
  case (alt1 a st st1 b)
  from alt1.IH [of k, OF alt1.prems] show ?case by (auto split: option.splits)
next
  case (alt2 b st st1 a)
  from alt2.IH [of k, OF alt2.prems] show ?case by (auto split: option.splits)
next
  case (star0 a st)
  then show ?case by (cases st) (auto split: option.splits)
next
  case (star1 a st st1 st2)
  obtain s cs where st: "st = (s, cs)" by (cases st)
  let ?K = "\<lambda>st'. if length (fst st') < length s then re_match (Star a) k st' else None"
  from star1.IH(2) [of k, OF star1.prems] have "re_match (Star a) k st1 \<noteq> None" .
  with star1.hyps(2) have "?K st1 \<noteq> None" by (simp add: st)
  from star1.IH(1) [of ?K, OF this] show ?case by (auto simp: st split: option.splits)
next
  case (lazy0 a st)
  then show ?case by (cases st) (auto split: option.splits)
next
  case (lazy1 a st st1 st2)
  obtain s cs where st: "st = (s, cs)" by (cases st)
  let ?K = "\<lambda>st'. if length (fst st') < length s then re_match (Lazy a) k st' else None"
  from lazy1.IH(2) [of k, OF lazy1.prems] have "re_match (Lazy a) k st1 \<noteq> None" .
  with lazy1.hyps(2) have "?K st1 \<noteq> None" by (simp add: st)
  from lazy1.IH(1) [of ?K, OF this] show ?case by (auto simp: st split: option.splits)
next
  case (opt0 a st)
  then show ?case by (auto split: option.splits)
next
  case (opt1 a st st1)
  from opt1.IH [of k, OF opt1.prems] show ?case by (auto split: option.splits)
next
  case (group a s cs s' cs' n)
  let ?K = "\<lambda>st'. k (fst st', AList.update n (take (length s - length (fst st')) s) (snd st'))"
  from group.prems have "?K (s', cs') \<noteq> None" by simp
  from group.IH [of ?K, OF this] show ?case by simp
qed

inductive_cases steps_SymE: "steps (Sym c) st st'"
inductive_cases steps_SeqE: "steps (Seq a b) st st'"
inductive_cases steps_AltE: "steps (Alt a b) st st'"
inductive_cases steps_GroupE: "steps (Group n a) st st'"
inductive_cases steps_OptE: "steps (Opt a) st st'"
inductive_cases steps_EpsE: "steps Eps st st'"

lemma str_includes_iff: "str_includes part s \<longleftrightarrow> part_of part s"
proof (induction s)
  case Nil
  then show ?case by (auto simp: part_of_def)
next
  case (Cons x xs)
  show ?case
  proof
    assume "str_includes part (x # xs)"
    then consider "take (length part) (x # xs) = part" | "str_includes part xs" by auto
    then show "part_of part (x # xs)"
    proof cases
      case 1
      have "x # xs = [] @ take (length part) (x # xs) @ drop (length part) (x # xs)" by simp
      with 1 show ?thesis unfolding part_of_def by metis
    next
      case 2
      with Cons.IH obtain p q where "xs = p @ part @ q" by (auto simp: part_of_def)
      then have "x # xs = (x # p) @ part @ q" by simp
      then show ?thesis unfolding part_of_def by blast
    qed
  next
    assume "part_of part (x # xs)"
    then obtain p q where pq: "x # xs = p @ part @ q" by (auto simp: part_of_def)
    show "str_includes part (x # xs)"
    proof (cases p)
      case Nil
      with pq have "take (length part) (x # xs) = part" by simp
      then show ?thesis by simp
    next
      case (Cons y ys)
      with pq have "xs = ys @ part @ q" by simp
      then have "part_of part xs" by (auto simp: part_of_def)
      with Cons.IH show ?thesis by simp
    qed
  qed
qed

lemma part_of_suffix: "part_of c t \<Longrightarrow> part_of c (p @ t)"
proof -
  assume "part_of c t"
  then obtain a b where "t = a @ c @ b" by (auto simp: part_of_def)
  then have "p @ t = (p @ a) @ c @ b" by simp
  then show ?thesis unfolding part_of_def by blast
qed

lemma part_of_trans: "part_of a b \<Longrightarrow> part_of b c \<Longrightarrow> part_of a c"
proof -
  assume "part_of a b" "part_of b c"
  then obtain p q p' q' where "b = p @ a @ q" "c = p' @ b @ q'" by (auto simp: part_of_def)
  then have "c = (p' @ p) @ a @ (q @ q')" by simp
  then show ?thesis unfolding part_of_def by blast
qed

lemma steps_suffix: "steps r st st' \<Longrightarrow> \<exists>p. fst st = p @ fst st'"
proof (induction rule: steps.induct)
  case (sym c x xs cs)
  have "x # xs = [x] @ xs" by simp
  then show ?case by auto
next
  case (seq a st st1 b st2)
  then obtain p q where "fst st = p @ fst st1" "fst st1 = q @ fst st2" by blast
  then have "fst st = (p @ q) @ fst st2" by simp
  then show ?case by blast
next
  case (star1 a st st1 st2)
  then obtain p q where "fst st = p @ fst st1" "fst st1 = q @ fst st2" by blast
  then have "fst st = (p @ q) @ fst st2" by simp
  then show ?case by blast
next
  case (lazy1 a st st1 st2)
  then obtain p q where "fst st = p @ fst st1" "fst st1 = q @ fst st2" by blast
  then have "fst st = (p @ q) @ fst st2" by simp
  then show ?case by blast
qed auto

lemma steps_plain: "steps r st st' \<Longrightarrow> plain r \<Longrightarrow> snd st' = snd st"
  by (induction rule: steps.induct) auto

text \<open>Every group of a match is a part of the text.\<close>

lemma steps_groups:
  "steps r st st' \<Longrightarrow> (\<exists>p. full = p @ fst st) \<Longrightarrow> (\<forall>nc \<in> set (snd st). part_of (snd nc) full) \<Longrightarrow>
     (\<forall>nc \<in> set (snd st'). part_of (snd nc) full)"
proof (induction rule: steps.induct)
  case (seq a st st1 b st2)
  from seq.prems(1) steps_suffix [OF seq.hyps(1)] have "\<exists>p. full = p @ fst st1"
    by (metis append.assoc)
  with seq show ?case by blast
next
  case (star1 a st st1 st2)
  from star1.prems(1) steps_suffix [OF star1.hyps(1)] have "\<exists>p. full = p @ fst st1"
    by (metis append.assoc)
  with star1 show ?case by blast
next
  case (lazy1 a st st1 st2)
  from lazy1.prems(1) steps_suffix [OF lazy1.hyps(1)] have "\<exists>p. full = p @ fst st1"
    by (metis append.assoc)
  with lazy1 show ?case by blast
next
  case (group a s cs s' cs' n)
  from group.IH group.prems have ih: "\<forall>nc \<in> set cs'. part_of (snd nc) full" by simp
  from steps_suffix [OF group.hyps] obtain q where q: "s = q @ s'" by auto
  from group.prems(1) obtain p where p: "full = p @ s" by auto
  have t: "take (length s - length s') s = q" using q by simp
  have "full = p @ q @ s'" using p q by simp
  then have pq: "part_of q full" unfolding part_of_def by blast
  have "set (AList.update n q cs') \<subseteq> insert (n, q) (set cs')" by (rule set_alist_update)
  with ih pq show ?case unfolding t by auto
qed auto

lemma steps_Sym_Seq_shorter:
  assumes "steps (Seq (Sym c) r) st st'"
  shows "length (fst st') < length (fst st)"
proof -
  from assms obtain st1 where a: "steps (Sym c) st st1" and b: "steps r st1 st'"
    by (rule steps_SeqE)
  from a obtain x where "fst st = x # fst st1" by (rule steps_SymE) auto
  moreover from steps_suffix [OF b] obtain p where "fst st1 = p @ fst st'" by blast
  ultimately show ?thesis by simp
qed

lemma steps_group_plain:
  assumes "steps (Group n a) (s, cs) st'" and "plain a"
  obtains s' where "st' = (s', AList.update n (take (length s - length s') s) cs)"
    and "steps a (s, cs) (s', cs)"
proof -
  from assms(1) obtain s' cs' where
    st': "st' = (s', AList.update n (take (length s - length s') s) cs')"
    and a: "steps a (s, cs) (s', cs')"
    by (rule steps_GroupE) auto
  from steps_plain [OF a assms(2)] have "cs' = cs" by simp
  with st' a that show ?thesis by simp
qed

lemma steps_plain_state:
  assumes "steps r (s, cs) st'" and "plain r"
  obtains s' where "st' = (s', cs)" and "\<exists>p. s = p @ s'"
proof -
  obtain s' cs' where st': "st' = (s', cs')" by (cases st')
  from steps_plain [OF assms] have "cs' = cs" by (simp add: st')
  moreover from steps_suffix [OF assms(1)] have "\<exists>p. s = p @ s'" by (simp add: st')
  ultimately show ?thesis using that st' by simp
qed

text \<open>The groups of a match of the attribute pattern: a key and a value. The value is
  empty only where the text has two double quotes in a row.\<close>

lemma attrPattern_groups:
  assumes "steps attrPattern (s, []) (rest, cs)"
  shows "(\<exists>k v. k \<noteq> [] \<and> cs = [(1, k), (2, v)] \<and> (v = [] \<longrightarrow> part_of [CHR 0x22, CHR 0x22] s))
       \<or> (\<exists>k v. k \<noteq> [] \<and> v \<noteq> [] \<and> cs = [(3, k), (4, v)])"
proof -
  let ?W = "one_or_more (Sym Word)"
  let ?A = "seqs [Group 1 ?W, spaces, lit ''='', spaces, quote, Group 2 (Star not_quote), quote]"
  let ?B = "seqs [Group 3 ?W, spaces, lit ''='', spaces, Group 4 (one_or_more (Sym (NotOf '';,]'')))]"
  from assms have "steps (Alt ?A ?B) (s, []) (rest, cs)" by (simp add: attrPattern_def)
  then consider (A) "steps ?A (s, []) (rest, cs)" | (B) "steps ?B (s, []) (rest, cs)"
    by (rule steps_AltE) auto
  then show ?thesis
  proof cases
    case A
    then obtain st1 st2 st3 st4 st5 st6 where
      g1: "steps (Group 1 ?W) (s, []) st1" and
      sp1: "steps spaces st1 st2" and
      eq: "steps (lit ''='') st2 st3" and
      sp2: "steps spaces st3 st4" and
      q1: "steps quote st4 st5" and
      g2: "steps (Group 2 (Star not_quote)) st5 st6" and
      q2: "steps quote st6 (rest, cs)"
      by (auto elim!: steps_SeqE)
    have pw: "plain ?W" by (simp add: one_or_more_def)
    from g1 pw obtain s1 where st1: "st1 = (s1, [(1, take (length s - length s1) s)])"
      and w: "steps ?W (s, []) (s1, [])"
      by (rule steps_group_plain) auto
    from w have "length s1 < length s"
      using steps_Sym_Seq_shorter [of Word "Star (Sym Word)" "(s, [])" "(s1, [])"]
      by (simp add: one_or_more_def)
    moreover from steps_suffix [OF w] obtain p1 where p1: "s = p1 @ s1" by auto
    ultimately have k: "take (length s - length s1) s \<noteq> []" by auto
    let ?c1 = "[(1::nat, take (length s - length s1) s)]"
    from sp1 obtain s2 where st2: "st2 = (s2, ?c1)" and p2: "\<exists>p. s1 = p @ s2"
      unfolding st1 by (rule steps_plain_state) (simp add: spaces_def)
    from eq obtain s3 where st3: "st3 = (s3, ?c1)" and p3: "\<exists>p. s2 = p @ s3"
      unfolding st2 by (rule steps_plain_state) (simp add: lit_def)
    from sp2 obtain s4 where st4: "st4 = (s4, ?c1)" and p4: "\<exists>p. s3 = p @ s4"
      unfolding st3 by (rule steps_plain_state) (simp add: spaces_def)
    from q1 have s4: "s4 = CHR 0x22 # fst st5" and c5: "snd st5 = ?c1"
      unfolding st4 quote_def by (auto elim: steps_SymE)
    obtain s5 where st5: "st5 = (s5, ?c1)" using c5 by (cases st5) auto
    from g2 obtain s6 where st6: "st6 = (s6, AList.update 2 (take (length s5 - length s6) s5) ?c1)"
      and nq: "steps (Star not_quote) (s5, ?c1) (s6, ?c1)"
      unfolding st5 by (rule steps_group_plain) (simp add: not_quote_def)
    from q2 have s6: "s6 = CHR 0x22 # rest"
      and cs: "cs = AList.update 2 (take (length s5 - length s6) s5) ?c1"
      unfolding st6 quote_def by (auto elim: steps_SymE)
    from steps_suffix [OF nq] obtain p6 where p6: "s5 = p6 @ s6" by auto
    have v: "take (length s5 - length s6) s5 = p6" using p6 by simp
    have "part_of [CHR 0x22, CHR 0x22] s" if "p6 = []"
    proof -
      from that p6 s6 s4 st5 have "s4 = [] @ [CHR 0x22, CHR 0x22] @ rest" by simp
      then have "part_of [CHR 0x22, CHR 0x22] s4" unfolding part_of_def by blast
      moreover from p1 p2 p3 p4 obtain p where "s = p @ s4" by (metis append.assoc)
      ultimately show ?thesis using part_of_suffix by blast
    qed
    with k cs v show ?thesis by auto
  next
    case B
    then obtain st1 st2 st3 st4 where
      g3: "steps (Group 3 ?W) (s, []) st1" and
      sp1: "steps spaces st1 st2" and
      eq: "steps (lit ''='') st2 st3" and
      sp2: "steps spaces st3 st4" and
      g4: "steps (Group 4 (one_or_more (Sym (NotOf '';,]'')))) st4 (rest, cs)"
      by (auto elim!: steps_SeqE)
    have pw: "plain ?W" by (simp add: one_or_more_def)
    from g3 pw obtain s1 where st1: "st1 = (s1, [(3, take (length s - length s1) s)])"
      and w: "steps ?W (s, []) (s1, [])"
      by (rule steps_group_plain) auto
    from w have "length s1 < length s"
      using steps_Sym_Seq_shorter [of Word "Star (Sym Word)" "(s, [])" "(s1, [])"]
      by (simp add: one_or_more_def)
    moreover from steps_suffix [OF w] obtain p1 where p1: "s = p1 @ s1" by auto
    ultimately have k: "take (length s - length s1) s \<noteq> []" by auto
    let ?c1 = "[(3::nat, take (length s - length s1) s)]"
    from sp1 obtain s2 where st2: "st2 = (s2, ?c1)"
      unfolding st1 by (rule steps_plain_state) (simp add: spaces_def)
    from eq obtain s3 where st3: "st3 = (s3, ?c1)"
      unfolding st2 by (rule steps_plain_state) (simp add: lit_def)
    from sp2 obtain s4 where st4: "st4 = (s4, ?c1)"
      unfolding st3 by (rule steps_plain_state) (simp add: spaces_def)
    let ?V = "one_or_more (Sym (NotOf '';,]''))"
    have pv: "plain ?V" by (simp add: one_or_more_def)
    from g4 pv obtain s5 where r: "(rest, cs) = (s5, AList.update 4 (take (length s4 - length s5) s4) ?c1)"
      and vv: "steps ?V (s4, ?c1) (s5, ?c1)"
      unfolding st4 by (rule steps_group_plain) auto
    from vv have "length s5 < length s4"
      using steps_Sym_Seq_shorter [of "NotOf '';,]''" "Star (Sym (NotOf '';,]''))" "(s4, ?c1)" "(s5, ?c1)"]
      by (simp add: one_or_more_def)
    moreover from steps_suffix [OF vv] obtain p5 where "s4 = p5 @ s5" by auto
    ultimately have v: "take (length s4 - length s5) s4 \<noteq> []" by auto
    from r have "cs = [(3, take (length s - length s1) s), (4, take (length s4 - length s5) s4)]"
      by simp
    with k v show ?thesis by blast
  qed
qed

lemma search_match:
  "search r i s = Some (j, matched, cs, rest) \<Longrightarrow>
     \<exists>p t. s = p @ t \<and> match_at r t = Some (rest, cs) \<and> t = matched @ rest"
proof (induction s arbitrary: i)
  case Nil
  then have m: "match_at r [] = Some (rest, cs)" and e: "matched = []" by (auto split: option.splits)
  from match_at_suffix [OF m] have "rest = []" by simp
  with m e show ?case by simp
next
  case (Cons x xs)
  show ?case
  proof (cases "match_at r (x # xs)")
    case None
    with Cons.prems have "search r (Suc i) xs = Some (j, matched, cs, rest)" by simp
    from Cons.IH [OF this] obtain p t where "xs = p @ t" "match_at r t = Some (rest, cs)"
      "t = matched @ rest" by blast
    then have "x # xs = (x # p) @ t \<and> match_at r t = Some (rest, cs) \<and> t = matched @ rest" by simp
    then show ?thesis by blast
  next
    case (Some a)
    obtain rest' cs' where a: "a = (rest', cs')" by (cases a)
    from Cons.prems Some a have r: "rest' = rest" "cs' = cs"
      "matched = take (length (x # xs) - length rest) (x # xs)" by auto
    from match_at_suffix [OF Some [unfolded a r]] obtain q where q: "x # xs = q @ rest" by blast
    then have "matched = q" using r(3) by simp
    with q Some a r have "x # xs = [] @ (x # xs) \<and> match_at r (x # xs) = Some (rest, cs)
        \<and> x # xs = matched @ rest" by simp
    then show ?thesis by blast
  qed
qed

lemma exec_all_match:
  "(j, cs) \<in> set (exec_all r i s) \<Longrightarrow> \<exists>p t rest. s = p @ t \<and> match_at r t = Some (rest, cs)"
proof (induction r i s rule: exec_all.induct)
  case (1 r i s)
  show ?case
  proof (cases "search r i s")
    case None
    with "1.prems" show ?thesis by (subst (asm) exec_all.simps) simp
  next
    case (Some a)
    obtain j' matched cs' rest where a: "a = (j', matched, cs', rest)" by (cases a)
    from search_match [OF Some [unfolded a]] obtain p t where
      pt: "s = p @ t" "match_at r t = Some (rest, cs')" "t = matched @ rest" by blast
    show ?thesis
    proof (cases "matched = []")
      case True
      with "1.prems" Some a show ?thesis by (subst (asm) exec_all.simps) simp
    next
      case False
      with "1.prems" Some a have "(j, cs) = (j', cs') \<or> (j, cs) \<in> set (exec_all r (j' + length matched) rest)"
        by (subst (asm) exec_all.simps) simp
      then show ?thesis
      proof
        assume "(j, cs) = (j', cs')"
        with pt show ?thesis by blast
      next
        assume "(j, cs) \<in> set (exec_all r (j' + length matched) rest)"
        from "1.IH" [OF Some a [symmetric] refl refl False this]
        obtain p' t' rest' where "rest = p' @ t'" "match_at r t' = Some (rest', cs)" by blast
        with pt have "s = (p @ matched @ p') @ t' \<and> match_at r t' = Some (rest', cs)" by simp
        then show ?thesis by blast
      qed
    qed
  qed
qed

section \<open>Attribute lists that are parsed without an error\<close>

lemma match_at_steps: "match_at r s = Some (rest, cs) \<Longrightarrow> steps r (s, []) (rest, cs)"
proof -
  assume "match_at r s = Some (rest, cs)"
  then have "re_match r Some (s, []) = Some (rest, cs)" by (simp add: match_at_def)
  from re_match_steps [OF this] show ?thesis by auto
qed

lemma match_at_groups:
  assumes "match_at r t = Some (rest, cs)" and "map_of cs n = Some g"
  shows "part_of g (p @ t)"
proof -
  from match_at_steps [OF assms(1)] have s: "steps r (t, []) (rest, cs)" .
  have "\<forall>nc \<in> set (snd (rest, cs)). part_of (snd nc) (p @ t)"
    by (rule steps_groups [OF s]) auto
  moreover from assms(2) have "(n, g) \<in> set cs" by (rule map_of_SomeD)
  ultimately show ?thesis by auto
qed

lemma exec_all_groups:
  assumes "(j, cs) \<in> set (exec_all r i s)"
  shows "text_of (grp cs n) = [] \<or> part_of (text_of (grp cs n)) s"
proof (cases "map_of cs n")
  case None
  then show ?thesis by (simp add: text_of_def grp_def)
next
  case (Some g)
  from exec_all_match [OF assms] obtain p t rest where
    "s = p @ t" "match_at r t = Some (rest, cs)" by blast
  with match_at_groups [OF this(2) Some, of p] Some show ?thesis
    by (simp add: text_of_def grp_def)
qed

lemma parse_attr_matches_ok:
  "(\<forall>m \<in> set ms. \<exists>key val. js_or (grp (snd m) 1) (grp (snd m) 3) = Some key
        \<and> js_or (grp (snd m) 2) (grp (snd m) 4) = Some val) \<Longrightarrow>
     \<exists>r. parse_attr_matches ms attrs = Inr r"
proof (induction ms arbitrary: attrs)
  case Nil
  then show ?case by simp
next
  case (Cons m ms)
  obtain i cs where m: "m = (i, cs)" by (cases m)
  from Cons.prems obtain key val where
    kv: "js_or (grp cs 1) (grp cs 3) = Some key" "js_or (grp cs 2) (grp cs 4) = Some val"
    by (auto simp: m)
  from Cons.prems have "\<forall>m \<in> set ms. \<exists>key val. js_or (grp (snd m) 1) (grp (snd m) 3) = Some key
        \<and> js_or (grp (snd m) 2) (grp (snd m) 4) = Some val" by simp
  from Cons.IH [OF this, of "set_attr (trim key) (trim val) attrs"] show ?case
    by (simp add: m kv del: One_nat_def)
qed

text \<open>An attribute text without two double quotes in a row is parsed without an error.\<close>

lemma parseAttributes_ok:
  assumes "\<not> part_of [CHR 0x22, CHR 0x22] a"
  shows "\<exists>r. parseAttributes a = Inr r"
proof (cases "a = []")
  case True
  then show ?thesis by (simp add: parseAttributes_def)
next
  case False
  have "\<exists>key val. js_or (grp (snd m) 1) (grp (snd m) 3) = Some key
        \<and> js_or (grp (snd m) 2) (grp (snd m) 4) = Some val"
    if m: "m \<in> set (exec_all attrPattern 0 a)" for m
  proof -
    obtain j cs where jc: "m = (j, cs)" by (cases m)
    from exec_all_match [OF m [unfolded jc]] obtain p t rest where
      pt: "a = p @ t" "match_at attrPattern t = Some (rest, cs)" by blast
    from assms pt(1) part_of_suffix [of "[CHR 0x22, CHR 0x22]" t p]
    have nq: "\<not> part_of [CHR 0x22, CHR 0x22] t" by auto
    from attrPattern_groups [OF match_at_steps [OF pt(2)]] nq
    consider k v where "k \<noteq> []" "v \<noteq> []" "cs = [(1, k), (2, v)]"
      | k v where "k \<noteq> []" "v \<noteq> []" "cs = [(3, k), (4, v)]"
      by blast
    then show ?thesis
    proof cases
      case 1
      then show ?thesis by (cases k; cases v) (simp_all add: jc grp_def js_or_def)
    next
      case 2
      then show ?thesis by (cases k; cases v) (simp_all add: jc grp_def js_or_def)
    qed
  qed
  from parse_attr_matches_ok [of "exec_all attrPattern 0 a" "[]"] this False
  show ?thesis by (simp add: parseAttributes_def)
qed

lemma process_defs_ok:
  "(\<forall>d \<in> set ds. \<exists>r. parseAttributes (snd (snd d)) = Inr r) \<Longrightarrow> \<exists>r. process_defs ds st = Inr r"
proof (induction ds arbitrary: st)
  case Nil
  then show ?case by simp
next
  case (Cons d ds)
  obtain i nodeId attributes where d: "d = (i, nodeId, attributes)" by (cases d)
  obtain nodeMap processed where st: "st = (nodeMap, processed)" by (cases st)
  from Cons.prems obtain a where a: "parseAttributes attributes = Inr a" by (auto simp: d)
  from Cons.prems have r: "\<forall>d \<in> set ds. \<exists>r. parseAttributes (snd (snd d)) = Inr r" by simp
  from Cons.IH [OF r] show ?case by (simp add: d st a)
qed

lemma process_edges_ok:
  "(\<forall>m \<in> set ms. \<exists>r. parseAttributes (snd (snd m)) = Inr r) \<Longrightarrow> \<exists>r. process_edges ms st = Inr r"
proof (induction ms arbitrary: st)
  case Nil
  show ?case by (cases st) auto
next
  case (Cons m ms)
  obtain source target attributes where m: "m = (source, target, attributes)" by (cases m)
  obtain nodeMap edges c where st: "st = (nodeMap, edges, c)" by (cases st) auto
  from Cons.prems obtain a where a: "parseAttributes attributes = Inr a" by (auto simp: m)
  from Cons.prems have r: "\<forall>m \<in> set ms. \<exists>r. parseAttributes (snd (snd m)) = Inr r" by simp
  from Cons.IH [OF r] show ?case by (simp add: m st a)
qed

lemma attributes_ok:
  assumes "\<not> part_of [CHR 0x22, CHR 0x22] c" and "a = [] \<or> part_of a c"
  shows "\<exists>r. parseAttributes a = Inr r"
proof (cases "a = []")
  case True
  then show ?thesis by (simp add: parseAttributes_def)
next
  case False
  with assms(2) have "part_of a c" by simp
  with assms(1) have "\<not> part_of [CHR 0x22, CHR 0x22] a" using part_of_trans by blast
  then show ?thesis by (rule parseAttributes_ok)
qed

lemma parse_ok:
  assumes "\<not> str_includes [CHR 0x22, CHR 0x22] (clean s)"
  shows "\<exists>r. parseDotToReactFlow s = Inr r"
proof -
  let ?c = "clean s"
  from assms have nq: "\<not> part_of [CHR 0x22, CHR 0x22] ?c" by (simp add: str_includes_iff)
  have "\<forall>d \<in> set (node_defs ?c). \<exists>r. parseAttributes (snd (snd d)) = Inr r"
  proof
    fix d assume "d \<in> set (node_defs ?c)"
    then have "d \<in> set (node_def_matches ?c)" by (simp add: node_defs_def)
    then obtain j cs where jc: "(j, cs) \<in> set (exec_all nodeDefPattern 0 ?c)"
      and a: "snd (snd d) = text_of (grp cs 4)"
      by (auto simp: node_def_matches_def)
    from exec_all_groups [OF jc, of 4] have "snd (snd d) = [] \<or> part_of (snd (snd d)) ?c"
      by (simp add: a)
    with nq show "\<exists>r. parseAttributes (snd (snd d)) = Inr r" by (rule attributes_ok)
  qed
  from process_defs_ok [OF this, of "([], [])"] obtain nodeMap processed where
    d: "process_defs (node_defs ?c) ([], []) = Inr (nodeMap, processed)" by auto
  let ?d = "str_includes ''digraph'' (strip_comments s)"
  have "\<forall>m \<in> set (edge_matches ?d ?c). \<exists>r. parseAttributes (snd (snd m)) = Inr r"
  proof
    fix m assume "m \<in> set (edge_matches ?d ?c)"
    then obtain j cs where jc: "(j, cs) \<in> set (exec_all (edgePattern ?d) 0 ?c)"
      and a: "snd (snd m) = text_of (grp cs 7)"
      by (auto simp: edge_matches_def)
    from exec_all_groups [OF jc, of 7] have "snd (snd m) = [] \<or> part_of (snd (snd m)) ?c"
      by (simp add: a)
    with nq show "\<exists>r. parseAttributes (snd (snd m)) = Inr r" by (rule attributes_ok)
  qed
  from process_edges_ok [OF this, of "(nodeMap, [], 0)"] obtain nodeMap' edges c where
    e: "process_edges (edge_matches ?d ?c) (nodeMap, [], 0) = Inr (nodeMap', edges, c)" by auto
  show ?thesis by (simp add: parseDotToReactFlow_def Let_def d e)
qed
section \<open>Geometry: side resolution\<close>




section \<open>Hierarchical layout: levels along edges\<close>

text \<open>
  Claim C1, as stated, fails. In the graph R \<rightarrow> A, R \<rightarrow> B, B \<rightarrow> A, A \<rightarrow> C the node A leaves the
  queue with level 1 and gives C the level 2; then B raises A to level 2, and A is not
  queued again. C, whose level was derived from A, ends at level 2, which is not at least
  the level of A plus one, and is not above the level of its ancestor A.
\<close>

theorem hierarchical_descendant_not_raised:
  "hierarchical_levels dag_nodes dag_edges = Inr [(''R'', 0), (''A'', 2), (''B'', 1), (''C'', 2)]
   \<and> hierarchical_dequeued dag_nodes dag_edges = [(''R'', 0), (''A'', 1), (''B'', 1), (''C'', 2)]
   \<and> \<lparr>edge_source = ''A'', edge_target = ''C''\<rparr> \<in> set dag_edges
   \<and> hierarchical_level dag_nodes dag_edges ''A'' = Inr 2
   \<and> hierarchical_level dag_nodes dag_edges ''C'' = Inr 2
   \<and> \<not> (level_of [(''R'', 0), (''A'', 2), (''B'', 1), (''C'', 2)] ''C''
          \<ge> level_of [(''R'', 0), (''A'', 2), (''B'', 1), (''C'', 2)] ''A'' + 1)"
  by (simp add: dag_nodes_def dag_edges_def hier_eval)

text \<open>
  Claim C1, amended. For every edge from u to v of a graph the hierarchical strategy levels:
  if u has a level then u was taken from the queue, and for the level l that u had when it
  was taken from the queue (the level from which the level of v was derived), the final level
  of v is at least l + 1, and the final level of u is at least l. The final level of u can be
  greater than l, since a level is raised in place without visiting the node again.
\<close>

theorem hierarchical_level_from_dequeued:
  assumes "hierarchical_levels nodes edges = Inr levels" and "e \<in> set edges"
  shows "(map_of levels (edge_source e) \<noteq> None \<longrightarrow>
            (\<exists>l. (edge_source e, l) \<in> set (hierarchical_dequeued nodes edges)))
       \<and> (\<forall>l. (edge_source e, l) \<in> set (hierarchical_dequeued nodes edges) \<longrightarrow>
            0 \<le> l \<and> l \<le> level_of levels (edge_source e) \<and> l + 1 \<le> level_of levels (edge_target e))"
proof -
  from assms(1) obtain adjacency inDegree rs where
    b: "build_edges edges (init_graph nodes) = Inr (adjacency, inDegree)"
    and r: "find_roots nodes inDegree = Inr rs"
    and lv: "levels = fst (bfs adjacency (init_bfs (map node_id rs)))"
    by (auto simp: hierarchical_levels_def split: sum.splits)
  have dq: "hierarchical_dequeued nodes edges = bfs_dequeued adjacency (init_bfs (map node_id rs))"
    by (simp add: hierarchical_dequeued_def b r)
  obtain a0 i0 where g0: "init_graph nodes = (a0, i0)" by (cases "init_graph nodes")
  have nb: "edge_target e \<in> set (neighbors adjacency (edge_source e))"
    using build_edges_neighbors [of edges a0 i0 adjacency inDegree e] b g0 assms(2) by simp
  have ok: "levels_ok (init_bfs (map node_id rs))" by (rule init_bfs_ok)
  have first: "map_of levels (edge_source e) \<noteq> None \<longrightarrow>
            (\<exists>l. (edge_source e, l) \<in> set (hierarchical_dequeued nodes edges))"
    using bfs_leveled_dequeued [of adjacency "map node_id rs" "edge_source e"] lv dq by force
  have second: "0 \<le> l \<and> l \<le> level_of levels (edge_source e) \<and> l + 1 \<le> level_of levels (edge_target e)"
    if "(edge_source e, l) \<in> set (hierarchical_dequeued nodes edges)" for l
  proof -
    from that dq have m: "(edge_source e, l) \<in> set (bfs_dequeued adjacency (init_bfs (map node_id rs)))"
      by simp
    from bfs_dequeued_edge [OF ok m nb] bfs_dequeued_nonneg [OF ok m] lv show ?thesis by simp
  qed
  from first second show ?thesis by blast
qed

theorem hierarchical_level_from_dequeued_witness:
  "level_of [(''R'', 0), (''A'', 2), (''B'', 1), (''C'', 2)] ''C'' \<ge> 1 + 1
   \<and> level_of [(''R'', 0), (''A'', 2), (''B'', 1), (''C'', 2)] ''A'' \<ge> 1"
proof -
  have l: "hierarchical_levels dag_nodes dag_edges = Inr [(''R'', 0), (''A'', 2), (''B'', 1), (''C'', 2)]"
    by (simp add: dag_nodes_def dag_edges_def hier_eval)
  have e: "\<lparr>edge_source = ''A'', edge_target = ''C''\<rparr> \<in> set dag_edges"
    by (simp add: dag_edges_def)
  have d: "(''A'', 1) \<in> set (hierarchical_dequeued dag_nodes dag_edges)"
    by (simp add: dag_nodes_def dag_edges_def hier_eval)
  from hierarchical_level_from_dequeued [OF l e] d show ?thesis by auto
qed

section \<open>Repeated invocations\<close>

text \<open>
  Claim C2, as stated, fails for the force-directed strategy. A node whose position has a
  zero (or no) coordinate is started at \<open>Math.random()\<close> times 800 (or 600); a node the parser
  has just created is at the origin. Two invocations on the same single node, fifty iterations,
  in which \<open>Math.random()\<close> returns 1/4 and 1/2, return the positions (200, 150) and
  (400, 300).
\<close>

theorem force_random_start:
  "forceDirectedLayout (\<lambda>_. 1 / 4) [new_node ''A'' ''A'' None] ([] :: edge list) 50 DEFAULT_SPACING
     = [(new_node ''A'' ''A'' None)\<lparr>node_x := Some 200, node_y := Some 150,
          node_vx := Some 0, node_vy := Some 0, node_fixed := Some False,
          position := Some \<lparr>xy_x = 200, xy_y = 150\<rparr>\<rparr>]
   \<and> forceDirectedLayout (\<lambda>_. 1 / 2) [new_node ''A'' ''A'' None] ([] :: edge list) 50 DEFAULT_SPACING
     = [(new_node ''A'' ''A'' None)\<lparr>node_x := Some 400, node_y := Some 300,
          node_vx := Some 0, node_vy := Some 0, node_fixed := Some False,
          position := Some \<lparr>xy_x = 400, xy_y = 300\<rparr>\<rparr>]
   \<and> forceDirectedLayout (\<lambda>_. 1 / 4) [new_node ''A'' ''A'' None] ([] :: edge list) 50 DEFAULT_SPACING
     \<noteq> forceDirectedLayout (\<lambda>_. 1 / 2) [new_node ''A'' ''A'' None] ([] :: edge list) 50 DEFAULT_SPACING"
proof -
  have a: "forceDirectedLayout (\<lambda>_. 1 / 4) [new_node ''A'' ''A'' None] ([] :: edge list) 50 DEFAULT_SPACING
     = [(new_node ''A'' ''A'' None)\<lparr>node_x := Some 200, node_y := Some 150,
          node_vx := Some 0, node_vy := Some 0, node_fixed := Some False,
          position := Some \<lparr>xy_x = 200, xy_y = 150\<rparr>\<rparr>]"
    using force_single_origin [of "\<lambda>_. 1 / 4" 50] by simp
  have b: "forceDirectedLayout (\<lambda>_. 1 / 2) [new_node ''A'' ''A'' None] ([] :: edge list) 50 DEFAULT_SPACING
     = [(new_node ''A'' ''A'' None)\<lparr>node_x := Some 400, node_y := Some 300,
          node_vx := Some 0, node_vy := Some 0, node_fixed := Some False,
          position := Some \<lparr>xy_x = 400, xy_y = 300\<rparr>\<rparr>]"
    using force_single_origin [of "\<lambda>_. 1 / 2" 50] by simp
  show ?thesis unfolding a b by (simp add: new_node_def)
qed

text \<open>
  Claim C2, amended. The circular, grid, hierarchical and radial strategies draw no random
  number: the choice by name returns the same nodes whatever \<open>Math.random()\<close> returns,
  unless the name selects the force-directed strategy. The force-directed strategy returns
  the same nodes on every invocation when it draws no random number, that is, when every
  node other than the pinned one has a position whose two coordinates are not zero.
\<close>

theorem layout_deterministic:
  "(list_all (no_draw (find is_blue nodes)) nodes \<longrightarrow>
      forceDirectedLayout rand1 nodes edges iterations sp
        = forceDirectedLayout rand2 nodes edges iterations sp)
   \<and> ((case layoutName of
          None \<Rightarrow> True
        | Some l \<Rightarrow> toLowerCase l \<notin> {''force'', ''fdp'', ''neato''}
                   \<or> list_all (no_draw (find is_blue nodes)) nodes) \<longrightarrow>
      applyLayout rand1 layoutName nodes edges sp = applyLayout rand2 layoutName nodes edges sp)"
proof -
  have f: "forceDirectedLayout rand1 nodes edges n sp = forceDirectedLayout rand2 nodes edges n sp"
    if "list_all (no_draw (find is_blue nodes)) nodes" for n
    unfolding forceDirectedLayout_def Let_def
    by (simp only: fold_init_sim_no_draw [OF that, where ?r1.0 = rand1 and ?r2.0 = rand2])
  have "applyLayout rand1 layoutName nodes edges sp = applyLayout rand2 layoutName nodes edges sp"
    if "case layoutName of
          None \<Rightarrow> True
        | Some l \<Rightarrow> toLowerCase l \<notin> {''force'', ''fdp'', ''neato''}
                   \<or> list_all (no_draw (find is_blue nodes)) nodes"
  proof (cases layoutName)
    case None
    then show ?thesis by (simp add: applyLayout_def)
  next
    case (Some l)
    show ?thesis
    proof (cases "toLowerCase l \<in> {''force'', ''fdp'', ''neato''}")
      case True
      with that Some have "list_all (no_draw (find is_blue nodes)) nodes" by auto
      from f [OF this, of 50]
      have e: "forceDirectedLayout rand1 nodes edges 50 sp = forceDirectedLayout rand2 nodes edges 50 sp" .
      show ?thesis
        by (subst applyLayout_force [of rand1], subst applyLayout_force [of rand2], simp only: e)
    next
      case False
      then show ?thesis
        by (simp add: applyLayout_force [of rand1] applyLayout_force [of rand2] Some Let_def)
    qed
  qed
  with f show ?thesis by blast
qed

theorem layout_deterministic_witness:
  "forceDirectedLayout (\<lambda>_. 1 / 4) [rect ''A'' 10 20 150 40] ([] :: edge list) 50 DEFAULT_SPACING
     = forceDirectedLayout (\<lambda>_. 1 / 2) [rect ''A'' 10 20 150 40] ([] :: edge list) 50 DEFAULT_SPACING
   \<and> applyLayout (\<lambda>_. 1 / 4) (Some ''Grid'') [new_node ''A'' ''A'' None] ([] :: edge list) DEFAULT_SPACING
     = applyLayout (\<lambda>_. 1 / 2) (Some ''Grid'') [new_node ''A'' ''A'' None] ([] :: edge list) DEFAULT_SPACING"
proof -
  have n: "list_all (no_draw (find is_blue [rect ''A'' 10 20 150 40])) [rect ''A'' 10 20 150 40]"
    by (simp add: no_draw_def rect_def new_node_def)
  have g: "case Some ''Grid'' of None \<Rightarrow> True
        | Some l \<Rightarrow> toLowerCase l \<notin> {''force'', ''fdp'', ''neato''}
                   \<or> list_all (no_draw (find is_blue [new_node ''A'' ''A'' None])) [new_node ''A'' ''A'' None]"
    by (simp add: toLowerCase_def lower_def)
  from layout_deterministic [of "[rect ''A'' 10 20 150 40]" "\<lambda>_. 1 / 4" "[] :: edge list" 50
      DEFAULT_SPACING "\<lambda>_. 1 / 2" None] n
  have a: "forceDirectedLayout (\<lambda>_. 1 / 4) [rect ''A'' 10 20 150 40] ([] :: edge list) 50 DEFAULT_SPACING
     = forceDirectedLayout (\<lambda>_. 1 / 2) [rect ''A'' 10 20 150 40] ([] :: edge list) 50 DEFAULT_SPACING"
    by blast
  from layout_deterministic [of "[new_node ''A'' ''A'' None]" "\<lambda>_. 1 / 4" "[] :: edge list" 50
      DEFAULT_SPACING "\<lambda>_. 1 / 2" "Some ''Grid''"] g
  have "applyLayout (\<lambda>_. 1 / 4) (Some ''Grid'') [new_node ''A'' ''A'' None] ([] :: edge list) DEFAULT_SPACING
     = applyLayout (\<lambda>_. 1 / 2) (Some ''Grid'') [new_node ''A'' ''A'' None] ([] :: edge list) DEFAULT_SPACING"
    by blast
  with a show ?thesis by blast
qed

section \<open>Parser: failures\<close>

text \<open>The parser does raise a TypeError on a fragment: an attribute with an empty quoted
  value.\<close>

lemma parse_empty_quoted_value:
  \<open>parseDotToReactFlow ''digraph G { A [label=""]; }'' = Inl TypeError\<close>
  by code_simp

text \<open>Fragments that are no statement are skipped; the statements around them are read.\<close>

lemma parse_skips_fragments:
  \<open>parseDotToReactFlow ''digraph G { A -> B; ]] = ; [x C [label=go]; @ -> ; D }'' =
     Inr ([new_node ''B'' ''B'' None, new_node ''C'' ''go'' None, new_node ''A'' ''A'' None],
          [[(''id'', JStr ''eA-B-0''), (''source'', JStr ''A''), (''target'', JStr ''B''),
            (''type'', JStr ''floating'')]])\<close>
  by code_simp

text \<open>
  Claim C3, as stated, fails: for the empty text the parser returns a normal result, the
  graph without nodes and edges; it reports no failure.
\<close>

theorem parse_empty_text:
  "parseDotToReactFlow [] = Inr ([], [])"
  by code_simp

text \<open>
  Claim C3, amended. The parser returns a normal result for every text that, once the
  comments, the graph declaration and the graph-level attributes are removed, has no two
  double quotes in a row: whatever fragments the text is made of, no error is raised. This
  holds in particular for every text without a double quote. For every text without a
  semicolon and without a minus sign (no statement separator and no edge operator: the empty
  text, blanks, comments, a graph with an empty body, and text that is no statement at
  all), the result is the graph without nodes and edges; no failure is reported.
\<close>

theorem parse_returns:
  "(\<not> str_includes [CHR 0x22, CHR 0x22] (clean s) \<longrightarrow> (\<exists>r. parseDotToReactFlow s = Inr r))
   \<and> (CHR 0x22 \<notin> set s \<longrightarrow> (\<exists>r. parseDotToReactFlow s = Inr r))
   \<and> (CHR '';'' \<notin> set s \<and> CHR ''-'' \<notin> set s \<longrightarrow> parseDotToReactFlow s = Inr ([], []))"
proof (intro conjI impI)
  assume "\<not> str_includes [CHR 0x22, CHR 0x22] (clean s)"
  then show "\<exists>r. parseDotToReactFlow s = Inr r" by (rule parse_ok)
next
  assume q: "CHR 0x22 \<notin> set s"
  have "\<not> part_of [CHR 0x22, CHR 0x22] (clean s)"
  proof
    assume "part_of [CHR 0x22, CHR 0x22] (clean s)"
    then have "CHR 0x22 \<in> set (clean s)" by (auto simp: part_of_def)
    with set_clean [of s] q show False by auto
  qed
  then have "\<not> str_includes [CHR 0x22, CHR 0x22] (clean s)" by (simp add: str_includes_iff)
  then show "\<exists>r. parseDotToReactFlow s = Inr r" by (rule parse_ok)
next
  assume a: "CHR '';'' \<notin> set s \<and> CHR ''-'' \<notin> set s"
  with set_clean [of s] have c: "CHR '';'' \<notin> set (clean s)" "CHR ''-'' \<notin> set (clean s)"
    by auto
  show "parseDotToReactFlow s = Inr ([], [])"
    unfolding parseDotToReactFlow_def Let_def node_defs_none [OF c(1)] edge_matches_none [OF c(2)]
    by simp
qed

theorem parse_returns_witness:
  \<open>(\<exists>r. parseDotToReactFlow ''digraph G { "a b" -> B [label="x" ; ]] C; = }'' = Inr r)
   \<and> (\<exists>r. parseDotToReactFlow ''digraph G { A -> B; ]] = ; [x C [label=go]; @ -> ; D }'' = Inr r)
   \<and> parseDotToReactFlow ''digraph G { hello world }'' = Inr ([], [])\<close>
proof -
  have h: \<open>\<not> str_includes [CHR 0x22, CHR 0x22] (clean ''digraph G { "a b" -> B [label="x" ; ]] C; = }'')\<close>
    by code_simp
  from parse_returns [of \<open>''digraph G { "a b" -> B [label="x" ; ]] C; = }''\<close>] h
  have a: \<open>\<exists>r. parseDotToReactFlow ''digraph G { "a b" -> B [label="x" ; ]] C; = }'' = Inr r\<close>
    by blast
  from parse_returns [of "''digraph G { A -> B; ]] = ; [x C [label=go]; @ -> ; D }''"]
  have b: "\<exists>r. parseDotToReactFlow ''digraph G { A -> B; ]] = ; [x C [label=go]; @ -> ; D }'' = Inr r"
    by simp
  from parse_returns [of "''digraph G { hello world }''"]
  have c: "parseDotToReactFlow ''digraph G { hello world }'' = Inr ([], [])"
    by simp
  from a b c show ?thesis by blast
qed
section \<open>What a layout changes in a node\<close>

text \<open>
  Claim C4, as stated, fails for the force-directed strategy: the node it returns is the
  working object of the simulation with a position, so it has the properties \<open>x\<close>,
  \<open>y\<close>, \<open>vx\<close>, \<open>vy\<close> and \<open>fixed\<close>, which the input node does not have.
\<close>

theorem force_output_working_fields:
  "forceDirectedLayout (\<lambda>_. 1 / 4) [new_node ''A'' ''A'' None] ([] :: edge list) 50 DEFAULT_SPACING
     = [(new_node ''A'' ''A'' None)\<lparr>node_x := Some 200, node_y := Some 150,
          node_vx := Some 0, node_vy := Some 0, node_fixed := Some False,
          position := Some \<lparr>xy_x = 200, xy_y = 150\<rparr>\<rparr>]
   \<and> node_vx (new_node ''A'' ''A'' None) = None
   \<and> node_fixed (new_node ''A'' ''A'' None) = None
   \<and> \<not> list_all2 only_position_changed [new_node ''A'' ''A'' None]
         (forceDirectedLayout (\<lambda>_. 1 / 4) [new_node ''A'' ''A'' None] ([] :: edge list) 50
            DEFAULT_SPACING)"
proof -
  have a: "forceDirectedLayout (\<lambda>_. 1 / 4) [new_node ''A'' ''A'' None] ([] :: edge list) 50 DEFAULT_SPACING
     = [(new_node ''A'' ''A'' None)\<lparr>node_x := Some 200, node_y := Some 150,
          node_vx := Some 0, node_vy := Some 0, node_fixed := Some False,
          position := Some \<lparr>xy_x = 200, xy_y = 150\<rparr>\<rparr>]"
    using force_single_origin [of "\<lambda>_. 1 / 4" 50] by simp
  show ?thesis unfolding a by (simp add: new_node_def only_position_changed_def)
qed

text \<open>
  Claim C4, amended. The circular, grid, hierarchical and radial strategies return, for every
  input node and in the same order, the node with a new position and nothing else changed.
  The force-directed strategy, on nodes with distinct ids, returns for every input node, in
  the same order, the node with a new position and with the five working properties
  \<open>x\<close>, \<open>y\<close>, \<open>vx\<close>, \<open>vy\<close> and \<open>fixed\<close> set; the id and every other property are
  unchanged.
\<close>

theorem layout_changes_position_only:
  "list_all2 only_position_changed nodes (circularLayout nodes centerX centerY sp)
   \<and> list_all2 only_position_changed nodes (gridLayout nodes columns sp)
   \<and> (\<forall>out. hierarchicalLayout nodes edges direction sp = Inr out \<longrightarrow>
         list_all2 only_position_changed nodes out)
   \<and> (\<forall>out. radialLayout nodes edges centerNodeId sp = Inr out \<longrightarrow>
         list_all2 only_position_changed nodes out)
   \<and> (distinct (map node_id nodes) \<longrightarrow>
         list_all2 position_and_working_fields_changed nodes
           (forceDirectedLayout rand nodes edges iterations sp))"
proof (intro conjI allI impI)
  show "list_all2 only_position_changed nodes (circularLayout nodes centerX centerY sp)"
    by (rule circularLayout_frame)
  show "list_all2 only_position_changed nodes (gridLayout nodes columns sp)"
    by (rule gridLayout_frame)
  show "list_all2 only_position_changed nodes out"
    if "hierarchicalLayout nodes edges direction sp = Inr out" for out
    using that by (rule hierarchicalLayout_frame)
  show "list_all2 only_position_changed nodes out"
    if "radialLayout nodes edges centerNodeId sp = Inr out" for out
    using that by (rule radialLayout_frame)
  show "list_all2 position_and_working_fields_changed nodes
           (forceDirectedLayout rand nodes edges iterations sp)"
    if "distinct (map node_id nodes)"
    using that by (rule forceDirectedLayout_frame)
qed

theorem layout_changes_position_only_witness:
  "(\<exists>out. hierarchicalLayout star_nodes star_edges ''TB'' DEFAULT_SPACING = Inr out
          \<and> list_all2 only_position_changed star_nodes out)
   \<and> (\<exists>out. radialLayout star_nodes star_edges None DEFAULT_SPACING = Inr out
          \<and> list_all2 only_position_changed star_nodes out)
   \<and> list_all2 position_and_working_fields_changed star_nodes
        (forceDirectedLayout (\<lambda>_. 1 / 4) star_nodes star_edges 50 DEFAULT_SPACING)"
proof -
  have d: "distinct (map node_id star_nodes)"
    by (simp add: star_nodes_def new_node_def)
  have ne: "star_nodes \<noteq> []" by (simp add: star_nodes_def)
  have src: "edge_source ` set star_edges \<subseteq> node_id ` set star_nodes"
    by (simp add: star_nodes_def star_edges_def new_node_def)
  from hierarchicalLayout_total [OF ne src] obtain h where
    h: "hierarchicalLayout star_nodes star_edges ''TB'' DEFAULT_SPACING = Inr h" by blast
  from radialLayout_total [OF src] obtain r where
    r: "radialLayout star_nodes star_edges None DEFAULT_SPACING = Inr r" by blast
  from layout_changes_position_only [of star_nodes 400 400 DEFAULT_SPACING None star_edges "''TB''"
      None "\<lambda>_. 1 / 4" 50] d h r
  show ?thesis by blast
qed

section \<open>Leveling terminates\<close>

text \<open>
  The traversals are total functions: \<open>bfs\<close> and \<open>radial_bfs\<close> are defined by
  well-founded recursion on the number of unvisited edge targets and the length of the queue.
  For a graph with at least one node whose edges leave from nodes, the hierarchical
  strategy returns levels, none of them negative (\<open>hierarchical_levels_total\<close>); so does
  the radial strategy, for a graph without nodes as well (\<open>radial_levels_total\<close>). On
  the cycle A \<rightarrow> B \<rightarrow> C \<rightarrow> A both give A, B and C the levels 3, 1 and 2.
\<close>

lemma hierarchical_levels_cycle:
  "hierarchical_levels cycle_nodes cycle_edges = Inr [(''A'', 3), (''B'', 1), (''C'', 2)]"
  by (simp add: cycle_nodes_def cycle_edges_def hier_eval)

lemma radial_levels_cycle:
  "radial_levels cycle_nodes cycle_edges None = Inr [(Some ''A'', 3), (Some ''B'', 1), (Some ''C'', 2)]"
  by (simp add: cycle_nodes_def cycle_edges_def radial_eval)

lemma radial_levels_empty:
  "radial_levels ([] :: node list) ([] :: edge list) None = Inr [(None, 0)]"
  by (simp add: radial_eval)

text \<open>
  Claim C5 holds for every graph with a node. For the graph without nodes the hierarchical
  strategy does not return levels: with no root it takes \<open>nodes[0]\<close>, which is
  \<open>undefined\<close>, as the root, and reading its id raises a TypeError.
\<close>

theorem hierarchical_levels_no_nodes:
  "hierarchical_levels ([] :: node list) ([] :: edge list) = Inl TypeError"
  by (simp add: hier_eval)

section \<open>Parser: the order of the nodes\<close>

text \<open>
  Claim C6, as stated, fails: the parser first takes the node definitions of the whole text
  and then the edges, and the node pattern takes the target of an edge statement, which
  stands before the semicolon, as a definition. In \<open>digraph G { A -> B; }\<close> the first
  reference is to A, and the nodes are returned in the order B, A.
\<close>

theorem parse_edge_target_first:
  "parseDotToReactFlow ''digraph G { A -> B; }'' =
     Inr ([new_node ''B'' ''B'' None, new_node ''A'' ''A'' None],
          [[(''id'', JStr ''eA-B-0''), (''source'', JStr ''A''), (''target'', JStr ''B''),
            (''type'', JStr ''floating'')]])"
  by code_simp

text \<open>
  Claim C6, amended. For every text the parser accepts, the nodes are listed, each id once,
  in the order of first occurrence in this list: the identifiers that the node-definition
  pass takes over the whole text, in text order, followed by the endpoints of the edge
  statements in text order, the source of an edge before its target.
\<close>

theorem parsed_node_order:
  assumes "parseDotToReactFlow s = Inr (nodes, edges)"
  shows "map node_id nodes =
           first_occurrences
             (map (\<lambda>(i, nodeId, attributes). nodeId) (node_defs (clean s)) @
              concat (map (\<lambda>(source, target, attributes). [source, target])
                        (edge_matches (str_includes ''digraph'' (strip_comments s)) (clean s))))
         \<and> distinct (map node_id nodes)"
proof -
  from assms have "map node_id nodes =
           first_occurrences
             (map (\<lambda>(i, nodeId, attributes). nodeId) (node_defs (clean s)) @
              concat (map (\<lambda>(source, target, attributes). [source, target])
                        (edge_matches (str_includes ''digraph'' (strip_comments s)) (clean s))))"
    by (rule parse_node_ids)
  moreover have "distinct (first_occurrences xs)" for xs :: "string list"
    by (simp add: first_occurrences_def)
  ultimately show ?thesis by simp
qed

theorem parsed_node_order_witness:
  "map node_id [new_node ''B'' ''B'' None, new_node ''C'' ''C'' None, new_node ''A'' ''A'' None] =
     first_occurrences
       (map (\<lambda>(i, nodeId, attributes). nodeId) (node_defs (clean ''digraph G { A -> B; C; }'')) @
        concat (map (\<lambda>(source, target, attributes). [source, target])
                  (edge_matches (str_includes ''digraph'' (strip_comments ''digraph G { A -> B; C; }''))
                     (clean ''digraph G { A -> B; C; }''))))
   \<and> distinct (map node_id [new_node ''B'' ''B'' None, new_node ''C'' ''C'' None, new_node ''A'' ''A'' None])"
proof -
  have p: "parseDotToReactFlow ''digraph G { A -> B; C; }'' =
     Inr ([new_node ''B'' ''B'' None, new_node ''C'' ''C'' None, new_node ''A'' ''A'' None],
          [[(''id'', JStr ''eA-B-0''), (''source'', JStr ''A''), (''target'', JStr ''B''),
            (''type'', JStr ''floating'')]])"
    by code_simp
  show ?thesis by (rule parsed_node_order [OF p])
qed

section \<open>Parser: the endpoints of the edges\<close>

text \<open>The source and the target that the edge pattern matched are nodes of the result.\<close>

lemma parsed_endpoints_are_nodes:
  assumes "parseDotToReactFlow s = Inr (nodes, edges)"
    and "(source, target, attributes)
           \<in> set (edge_matches (str_includes ''digraph'' (strip_comments s)) (clean s))"
  shows "source \<in> node_id ` set nodes \<and> target \<in> node_id ` set nodes"
proof -
  let ?ds = "map (\<lambda>(i, nodeId, attributes). nodeId) (node_defs (clean s))"
  let ?es = "concat (map (\<lambda>(source, target, attributes). [source, target])
                        (edge_matches (str_includes ''digraph'' (strip_comments s)) (clean s)))"
  from parse_node_ids [OF assms(1)]
  have "set (map node_id nodes) = set (first_occurrences (?ds @ ?es))" by simp
  then have "node_id ` set nodes = set ?ds \<union> set ?es"
    by (auto simp: first_occurrences_def)
  moreover from assms(2) have "source \<in> set ?es" "target \<in> set ?es" by force+
  ultimately show ?thesis by simp
qed

text \<open>
  Claim C7 fails on an edge whose attribute list has the key \<open>source\<close> (or \<open>target\<close>):
  the attributes are spread over the edge object after \<open>source\<close> and \<open>target\<close>, and
  replace them. The nodes A and B are created; the edge is returned with the source X,
  which is the id of no node.
\<close>

theorem parse_edge_source_overridden:
  "parseDotToReactFlow ''digraph G { A -> B [source=X]; }'' =
     Inr ([new_node ''B'' ''B'' None, new_node ''A'' ''A'' None],
          [[(''id'', JStr ''eA-B-0''), (''source'', JStr ''X''), (''target'', JStr ''B''),
            (''type'', JStr ''floating'')]])"
  by code_simp

section \<open>Radial layout: rings\<close>




lemma star_level_one:
  "level_group [(Some ''A'', 0), (Some ''B'', 1), (Some ''C'', 1)] star_nodes 1
     = [new_node ''B'' ''B'' None, new_node ''C'' ''C'' None]
   \<and> level_radius [(Some ''A'', 0), (Some ''B'', 1), (Some ''C'', 1)] star_nodes DEFAULT_SPACING 1 = 380"
proof -
  have "0 < pi" by simp
  have "(360::real) / (2 * pi) \<le> 380"
    using pi_ge_two by (simp add: field_simps)
  then show ?thesis
    by (simp add: level_group_def radial_level_def level_of_def star_nodes_def new_node_def
        level_radius_def calculateMinSpacing_def DEFAULT_SPACING_def num_or_def)
qed

section \<open>Parser: an edge statement seen as a node definition\<close>

text \<open>
  In \<open>digraph G { A -> B [label="go"]; }\<close> the node pattern matches the target B with the
  attribute list of the edge, at index 7 of the cleaned text, and B gets the label \<open>go\<close>;
  with \<open>[fillcolor=red]\<close> B gets the style of the edge. The same happens in the first
  statement of \<open>digraph G { A -> B [label="go"]; B -> C; }\<close>, and for a target that is
  already defined: its label is replaced and the style of the edge is merged into its style.
\<close>

lemma parse_edge_attributes_define_target:
  \<open>node_def_matches (clean ''digraph G { A -> B [label="go"]; }'') = [(7, ''B'', ''label="go"'')]
   \<and> parseDotToReactFlow ''digraph G { A -> B [label="go"]; }'' =
       Inr ([new_node ''B'' ''go'' None, new_node ''A'' ''A'' None],
            [[(''id'', JStr ''eA-B-0''), (''source'', JStr ''A''), (''target'', JStr ''B''),
              (''label'', JStr ''go''), (''type'', JStr ''floating'')]])
   \<and> parseDotToReactFlow ''digraph G { A -> B [fillcolor=red]; }'' =
       Inr ([new_node ''B'' ''B'' (Some [(''background'', ''red'')]), new_node ''A'' ''A'' None],
            [[(''id'', JStr ''eA-B-0''), (''source'', JStr ''A''), (''target'', JStr ''B''),
              (''style'', JObj [(''background'', ''red'')]), (''type'', JStr ''floating'')]])
   \<and> parseDotToReactFlow ''digraph G { A -> B [label="go"]; B -> C; }'' =
       Inr ([new_node ''B'' ''go'' None, new_node ''C'' ''C'' None, new_node ''A'' ''A'' None],
            [[(''id'', JStr ''eA-B-0''), (''source'', JStr ''A''), (''target'', JStr ''B''),
              (''label'', JStr ''go''), (''type'', JStr ''floating'')],
             [(''id'', JStr ''eB-C-1''), (''source'', JStr ''B''), (''target'', JStr ''C''),
              (''type'', JStr ''floating'')]])\<close>
  by code_simp

lemma parse_edge_attributes_merge_target:
  \<open>parseDotToReactFlow
     ''digraph G { B [label="old", fillcolor=red]; A -> B [label="go", color=blue]; }'' =
       Inr ([new_node ''B'' ''go'' (Some [(''background'', ''red''), (''stroke'', ''blue'')]),
             new_node ''A'' ''A'' None],
            [[(''id'', JStr ''eA-B-0''), (''source'', JStr ''A''), (''target'', JStr ''B''),
              (''label'', JStr ''go''), (''style'', JObj [(''stroke'', ''blue'')]),
              (''type'', JStr ''floating'')]])\<close>
  by code_simp

text \<open>
  Claim C10 fails for a target whose name ends in \<open>node\<close>. The pattern that removes the
  graph-level statement \<open>node [...];\<close> has no word boundary: in
  \<open>digraph G { A -> mynode [label="go"]; }\<close> it removes \<open>node [label="go"];\<close> from the edge
  statement. What is left is \<open>{ A -> my }\<close>: no node definition is found, the edge goes to
  a node \<open>my\<close> with the label \<open>my\<close>, there is no node \<open>mynode\<close>, and the label \<open>go\<close>
  is lost for the node and for the edge.
\<close>

theorem parse_edge_target_cut:
  \<open>clean ''digraph G { A -> mynode [label="go"]; }'' = ''{ A -> my }''
   \<and> node_def_matches (clean ''digraph G { A -> mynode [label="go"]; }'') = []
   \<and> parseDotToReactFlow ''digraph G { A -> mynode [label="go"]; }'' =
       Inr ([new_node ''A'' ''A'' None, new_node ''my'' ''my'' None],
            [[(''id'', JStr ''eA-my-0''), (''source'', JStr ''A''), (''target'', JStr ''my''),
              (''type'', JStr ''floating'')]])\<close>
  by code_simp
end
